theory Spec2Isabelle
  imports Complex_Main "HOL-Library.Word" "HOL-Library.Log_Nat"
begin

section \<open>The koubei proxy handlers of china-auto-dashboard\<close>

text \<open>
  The repository holds two Cloudflare Pages functions, both named \<open>onRequestGet\<close>:
  \<^verbatim>\<open>functions/api/koubei.js\<close> (the strict variant, which answers 400 when no id is given)
  and a second file (the lenient variant, which falls back to the id 197). Each reads the
  query parameter \<open>id\<close>, builds the address of a static JSON file, fetches it, and relays
  the JSON it finds.

  The handlers are a dozen lines each; everything else they run is the JavaScript runtime:
  strings, \<open>URLSearchParams.get\<close>, \<open>fetch\<close>, \<open>Response\<close>, \<open>JSON.parse\<close> (inside
  \<open>res.json()\<close>) and \<open>JSON.stringify\<close>. The runtime is modelled first, after ECMA-262 and
  the Fetch standard, as far as the handlers use it.

  The model of the runtime leaves out: the parsing of the request URL into its query
  pairs and the decoding of a response body from UTF-8 (both are taken in decoded form);
  the sign of zero (\<open>-0\<close> and \<open>0\<close> are one Number); the limit an engine puts on the depth
  of nesting in \<open>JSON.parse\<close>; and time, so that a fetch always ends, with a response or
  with an error.
\<close>

subsection \<open>Strings\<close>

text \<open>
  A JavaScript string is a sequence of 16-bit code units. \<open>js\<close> turns an ASCII literal
  into one.
\<close>

type_synonym code_unit = "16 word"
type_synonym jsstring = "code_unit list"

definition js :: "string \<Rightarrow> jsstring" where
  "js s = map of_char s"

abbreviation cu :: "char \<Rightarrow> code_unit" where
  "cu c \<equiv> of_char c"

definition dquote :: code_unit where
  "dquote = 0x22"

definition bslash :: code_unit where
  "bslash = 0x5C"

definition is_digit :: "code_unit \<Rightarrow> bool" where
  "is_digit c \<longleftrightarrow> 0x30 \<le> c \<and> c \<le> 0x39"

definition digit_val :: "code_unit \<Rightarrow> int" where
  "digit_val c = uint c - 48"

definition digit_char :: "int \<Rightarrow> code_unit" where
  "digit_char d = word_of_int (48 + d)"

text \<open>The value of a run of decimal digits, most significant first.\<close>

definition digits_value :: "jsstring \<Rightarrow> int" where
  "digits_value ds = foldl (\<lambda>acc c. 10 * acc + digit_val c) 0 ds"

text \<open>The decimal digits of a positive integer; the empty run for 0.\<close>

function digits_of :: "int \<Rightarrow> jsstring" where
  "digits_of n = (if n \<le> 0 then [] else digits_of (n div 10) @ [digit_char (n mod 10)])"
  by pat_completeness auto
termination
  by (relation "measure nat") auto

declare digits_of.simps [simp del]

definition decimal :: "int \<Rightarrow> jsstring" where
  "decimal n = (if n \<le> 0 then js ''0'' else digits_of n)"

subsection \<open>Numbers\<close>

text \<open>
  A Number is an IEEE 754 binary64 value. Those that JSON text can denote are the finite
  ones and the two infinities, which a literal beyond the range rounds to. A finite
  Number is \<open>Finite m p\<close>, of value \<open>m * 2 ^ p\<close>, in the one form the format gives it:
  the exponent \<open>p\<close> of the last bit runs from -1074 to 971, the significand \<open>m\<close> has at
  most 53 bits, and exactly 53 unless \<open>p\<close> is -1074 (the subnormal numbers and zero).
  The two zeros are one value, as they are for \<open>===\<close>.
\<close>

datatype number = Finite int int | PosInfinity | NegInfinity

definition is_double :: "int \<Rightarrow> int \<Rightarrow> bool" where
  "is_double m p \<longleftrightarrow>
     - 1074 \<le> p \<and> p \<le> 971 \<and> \<bar>m\<bar> < 2 ^ 53 \<and> (- 1074 < p \<longrightarrow> 2 ^ 52 \<le> \<bar>m\<bar>)"

text \<open>
  Fractions are pairs of integers, the denominator positive:
  \<open>scale base (a, b) e\<close> is \<open>a / b\<close> times \<open>base\<close> to the \<open>e\<close>.
\<close>

type_synonym fraction = "int \<times> int"

definition scale :: "int \<Rightarrow> fraction \<Rightarrow> int \<Rightarrow> fraction" where
  "scale base f e =
     (if 0 \<le> e then (fst f * base ^ nat e, snd f) else (fst f, snd f * base ^ nat (- e)))"

text \<open>The number of digits of a positive integer in a base.\<close>

function ndigits :: "int \<Rightarrow> int \<Rightarrow> int" where
  "ndigits base n = (if n \<le> 0 \<or> base \<le> 1 then 0 else 1 + ndigits base (n div base))"
  by pat_completeness auto
termination
proof (relation "measure (\<lambda>(base, n). nat n)")
  show "wf (measure (\<lambda>(base, n). nat n))"
    by simp
next
  fix base n :: int
  assume "\<not> (n \<le> 0 \<or> base \<le> 1)"
  then have "n div base < n"
    by (simp add: int_div_less_self)
  with \<open>\<not> (n \<le> 0 \<or> base \<le> 1)\<close> show "((base, n div base), (base, n)) \<in> measure (\<lambda>(base, n). nat n)"
    by simp
qed

declare ndigits.simps [simp del]

text \<open>The floor of the logarithm of a positive fraction.\<close>

definition ilog :: "int \<Rightarrow> fraction \<Rightarrow> int" where
  "ilog base f =
     (let d = ndigits base (fst f) - ndigits base (snd f);
          g = scale base f (- d)
      in if snd g \<le> fst g then d else d - 1)"

text \<open>Rounding a fraction to an integer, ties to even.\<close>

definition round_half_even :: "fraction \<Rightarrow> int" where
  "round_half_even f =
     (let q = fst f div snd f; r = fst f mod snd f
      in if 2 * r < snd f then q
         else if snd f < 2 * r then q + 1
         else if even q then q else q + 1)"

text \<open>
  The Number value for a positive fraction, rounded to nearest, ties to even: 53
  significant bits, the last of them no lower than \<open>2 ^ - 1074\<close>, and infinity from
  \<open>2 ^ 1024\<close> on.
\<close>

definition to_double_pos :: "fraction \<Rightarrow> number" where
  "to_double_pos f =
     (let p = max (ilog 2 f - 52) (- 1074);
          m = round_half_even (scale 2 f (- p))
      in if m = 2 ^ 53 then (if 971 \<le> p then PosInfinity else Finite (2 ^ 52) (p + 1))
         else if 971 < p then PosInfinity
         else Finite m p)"

definition negate :: "number \<Rightarrow> number" where
  "negate x = (case x of Finite m p \<Rightarrow> Finite (- m) p | PosInfinity \<Rightarrow> NegInfinity
     | NegInfinity \<Rightarrow> PosInfinity)"

definition to_double :: "fraction \<Rightarrow> number" where
  "to_double f =
     (if fst f = 0 then Finite 0 (- 1074)
      else if fst f < 0 then negate (to_double_pos (- fst f, snd f))
      else to_double_pos f)"

text \<open>
  \<open>Number::toString\<close> (radix 10) writes a positive Number with the fewest digits that
  read back as the same Number: digits \<open>s\<close> and a decimal position \<open>n\<close>, the value
  denoted being \<open>s * 10 ^ (n - k)\<close> for \<open>k\<close> the number of digits. Among the numbers
  of \<open>k\<close> digits only the two around the exact value can qualify; the nearer is tried
  first, the even one on a tie. With enough digits the exact value itself is reached.
\<close>

definition accepts :: "int \<Rightarrow> int \<Rightarrow> int \<Rightarrow> int \<Rightarrow> bool" where
  "accepts m p s e \<longleftrightarrow> to_double (scale 10 (s, 1) e) = Finite m p"

fun shortest :: "int \<Rightarrow> int \<Rightarrow> fraction \<Rightarrow> int \<Rightarrow> nat \<Rightarrow> nat \<Rightarrow> int \<times> int" where
  "shortest m p f n0 k fuel =
     (let g = scale 10 f (int k - n0);
          lo = fst g div snd g;
          r = fst g mod snd g;
          down = (2 * r < snd g \<or> (2 * r = snd g \<and> even lo));
          s1 = (if down then lo else lo + 1);
          s2 = (if down then lo + 1 else lo);
          norm = (\<lambda>s. if s = 10 ^ k then (10 ^ (k - 1), n0 + 1) else (s, n0))
      in if accepts m p s1 (n0 - int k) then norm s1
         else if accepts m p s2 (n0 - int k) then norm s2
         else (case fuel of 0 \<Rightarrow> norm lo | Suc fuel' \<Rightarrow> shortest m p f n0 (Suc k) fuel'))"

declare shortest.simps [simp del]

definition format_digits :: "jsstring \<Rightarrow> int \<Rightarrow> jsstring" where
  "format_digits ds n =
     (let k = int (length ds)
      in if k \<le> n \<and> n \<le> 21 then ds @ replicate (nat (n - k)) (cu CHR ''0'')
         else if 0 < n \<and> n \<le> 21 then take (nat n) ds @ js ''.'' @ drop (nat n) ds
         else if - 6 < n \<and> n \<le> 0 then js ''0.'' @ replicate (nat (- n)) (cu CHR ''0'') @ ds
         else (let e = n - 1;
                   ex = (if e < 0 then js ''e-'' else js ''e+'') @ decimal \<bar>e\<bar>
               in if k = 1 then ds @ ex else hd ds # js ''.'' @ tl ds @ ex))"

definition shortest_digits :: "int \<Rightarrow> int \<Rightarrow> int \<times> int" where
  "shortest_digits m p =
     (let f = scale 2 (m, 1) p;
          n0 = ilog 10 f + 1
      in shortest m p f n0 1 (nat (max n0 (n0 - p))))"

definition positive_toString :: "int \<Rightarrow> int \<Rightarrow> jsstring" where
  "positive_toString m p =
     (let sn = shortest_digits m p in format_digits (digits_of (fst sn)) (snd sn))"

fun Number_toString :: "number \<Rightarrow> jsstring" where
  "Number_toString PosInfinity = js ''Infinity''"
| "Number_toString NegInfinity = js ''-Infinity''"
| "Number_toString (Finite m p) =
     (if m = 0 then js ''0''
      else if m < 0 then js ''-'' @ positive_toString (- m) p
      else positive_toString m p)"

subsection \<open>JSON values\<close>

text \<open>
  What \<open>JSON.parse\<close> can return. An object is the list of its properties in the order
  the runtime enumerates them: the keys that are array indices first, in ascending order,
  then the other keys in the order of their creation.
\<close>

datatype json =
    JNull
  | JBool bool
  | JNumber number
  | JString jsstring
  | JArray "json list"
  | JObject "(jsstring \<times> json) list"

text \<open>An array index is the canonical decimal form of an integer below \<open>2 ^ 32 - 1\<close>.\<close>

definition is_array_index :: "jsstring \<Rightarrow> bool" where
  "is_array_index k \<longleftrightarrow>
     k \<noteq> [] \<and> list_all is_digit k \<and> (hd k = cu CHR ''0'' \<longrightarrow> length k = 1)
       \<and> digits_value k < 2 ^ 32 - 1"

fun insert_index :: "jsstring \<Rightarrow> json \<Rightarrow> (jsstring \<times> json) list \<Rightarrow> (jsstring \<times> json) list" where
  "insert_index k v [] = [(k, v)]"
| "insert_index k v (kv # kvs) =
     (if is_array_index (fst kv) \<and> digits_value (fst kv) < digits_value k
      then kv # insert_index k v kvs
      else (k, v) # kv # kvs)"

fun replace_value :: "jsstring \<Rightarrow> json \<Rightarrow> (jsstring \<times> json) list \<Rightarrow> (jsstring \<times> json) list" where
  "replace_value k v [] = []"
| "replace_value k v (kv # kvs) =
     (if fst kv = k then (k, v) # kvs else kv # replace_value k v kvs)"

text \<open>\<open>CreateDataProperty\<close>: a key already there keeps its place and takes the new value.\<close>

definition create_property :: "(jsstring \<times> json) list \<Rightarrow> jsstring \<Rightarrow> json \<Rightarrow> (jsstring \<times> json) list" where
  "create_property kvs k v =
     (if k \<in> fst ` set kvs then replace_value k v kvs
      else if is_array_index k then insert_index k v kvs
      else kvs @ [(k, v)])"

subsection \<open>\<open>JSON.stringify\<close>\<close>

definition is_high_surrogate :: "code_unit \<Rightarrow> bool" where
  "is_high_surrogate c \<longleftrightarrow> 0xD800 \<le> c \<and> c \<le> 0xDBFF"

definition is_low_surrogate :: "code_unit \<Rightarrow> bool" where
  "is_low_surrogate c \<longleftrightarrow> 0xDC00 \<le> c \<and> c \<le> 0xDFFF"

definition hex_char :: "code_unit \<Rightarrow> code_unit" where
  "hex_char d = (if d < 10 then 0x30 + d else 0x57 + d)"

text \<open>\<open>UnicodeEscape\<close>: a backslash, \<open>u\<close> and four lower-case hexadecimal digits.\<close>

definition unicode_escape :: "code_unit \<Rightarrow> jsstring" where
  "unicode_escape c =
     [bslash, cu CHR ''u'', hex_char (drop_bit 12 c), hex_char (and (drop_bit 8 c) 0xF),
      hex_char (and (drop_bit 4 c) 0xF), hex_char (and c 0xF)]"

text \<open>
  \<open>QuoteJSONString\<close>, between the quotes. A surrogate is written as it is only in a
  pair, high then low; alone it is escaped, like the control characters.
\<close>

fun quote_chars :: "jsstring \<Rightarrow> jsstring" where
  "quote_chars [] = []"
| "quote_chars (c # cs) =
     (if c = 0x08 then [bslash, cu CHR ''b''] @ quote_chars cs
      else if c = 0x09 then [bslash, cu CHR ''t''] @ quote_chars cs
      else if c = 0x0A then [bslash, cu CHR ''n''] @ quote_chars cs
      else if c = 0x0C then [bslash, cu CHR ''f''] @ quote_chars cs
      else if c = 0x0D then [bslash, cu CHR ''r''] @ quote_chars cs
      else if c = dquote then [bslash, dquote] @ quote_chars cs
      else if c = bslash then [bslash, bslash] @ quote_chars cs
      else if c < 0x20 then unicode_escape c @ quote_chars cs
      else if is_high_surrogate c then
        (case cs of
           [] \<Rightarrow> unicode_escape c
         | d # ds \<Rightarrow>
             if is_low_surrogate d then c # d # quote_chars ds
             else unicode_escape c @ quote_chars cs)
      else if is_low_surrogate c then unicode_escape c @ quote_chars cs
      else c # quote_chars cs)"

definition QuoteJSONString :: "jsstring \<Rightarrow> jsstring" where
  "QuoteJSONString s = dquote # quote_chars s @ [dquote]"

fun join :: "jsstring \<Rightarrow> jsstring list \<Rightarrow> jsstring" where
  "join sep [] = []"
| "join sep [x] = x"
| "join sep (x # y # ys) = x @ sep @ join sep (y # ys)"

definition newline :: code_unit where
  "newline = 0x0A"

text \<open>
  \<open>SerializeJSONProperty\<close> with \<open>SerializeJSONArray\<close> and \<open>SerializeJSONObject\<close>:
  \<open>gap\<close> is the indentation unit and \<open>indent\<close> the current indentation. A Number
  that is not finite is written \<open>null\<close>.
\<close>

fun wrap :: "jsstring \<Rightarrow> jsstring \<Rightarrow> jsstring \<Rightarrow> jsstring \<Rightarrow> jsstring list \<Rightarrow> jsstring" where
  "wrap gap indent left right partial =
     (if partial = [] then left @ right
      else if gap = [] then left @ join (js '','') partial @ right
      else left @ [newline] @ (indent @ gap)
        @ join (js '','' @ [newline] @ (indent @ gap)) partial
        @ [newline] @ indent @ right)"

fun serialize :: "jsstring \<Rightarrow> jsstring \<Rightarrow> json \<Rightarrow> jsstring" where
  "serialize gap indent JNull = js ''null''"
| "serialize gap indent (JBool b) = (if b then js ''true'' else js ''false'')"
| "serialize gap indent (JNumber x) =
     (case x of Finite m p \<Rightarrow> Number_toString x | _ \<Rightarrow> js ''null'')"
| "serialize gap indent (JString s) = QuoteJSONString s"
| "serialize gap indent (JArray vs) =
     wrap gap indent (js ''['') (js '']'') (map (serialize gap (indent @ gap)) vs)"
| "serialize gap indent (JObject kvs) =
     wrap gap indent (js ''{'') (js ''}'')
       (map (\<lambda>kv. QuoteJSONString (fst kv) @ js '':'' @ (if gap = [] then [] else js '' '')
               @ serialize gap (indent @ gap) (snd kv)) kvs)"

text \<open>
  \<open>JSON.stringify(value, null, space)\<close> for a number \<open>space\<close>: the gap is that many
  spaces, at most 10. \<open>JSON.stringify(value)\<close> is the case \<open>space = 0\<close>.
\<close>

definition JSON_stringify :: "json \<Rightarrow> nat \<Rightarrow> jsstring" where
  "JSON_stringify v space = serialize (replicate (min 10 space) (cu CHR '' '')) [] v"

subsection \<open>\<open>JSON.parse\<close>\<close>

definition is_ws :: "code_unit \<Rightarrow> bool" where
  "is_ws c \<longleftrightarrow> c = 0x09 \<or> c = 0x0A \<or> c = 0x0D \<or> c = 0x20"

definition skip_ws :: "jsstring \<Rightarrow> jsstring" where
  "skip_ws s = dropWhile is_ws s"

definition hex_val :: "code_unit \<Rightarrow> code_unit option" where
  "hex_val c =
     (if 0x30 \<le> c \<and> c \<le> 0x39 then Some (c - 0x30)
      else if 0x61 \<le> c \<and> c \<le> 0x66 then Some (c - 0x57)
      else if 0x41 \<le> c \<and> c \<le> 0x46 then Some (c - 0x37)
      else None)"

definition hex4 :: "code_unit \<Rightarrow> code_unit \<Rightarrow> code_unit \<Rightarrow> code_unit \<Rightarrow> code_unit option" where
  "hex4 a b c d =
     (case (hex_val a, hex_val b, hex_val c, hex_val d) of
        (Some w, Some x, Some y, Some z) \<Rightarrow>
          Some (push_bit 12 w + push_bit 8 x + push_bit 4 y + z)
      | _ \<Rightarrow> None)"

definition unescape :: "code_unit \<Rightarrow> code_unit option" where
  "unescape e =
     (if e = dquote then Some dquote
      else if e = bslash then Some bslash
      else if e = cu CHR ''/'' then Some (cu CHR ''/'')
      else if e = cu CHR ''b'' then Some 0x08
      else if e = cu CHR ''f'' then Some 0x0C
      else if e = cu CHR ''n'' then Some 0x0A
      else if e = cu CHR ''r'' then Some 0x0D
      else if e = cu CHR ''t'' then Some 0x09
      else None)"

definition cons_to :: "code_unit \<Rightarrow> (jsstring \<times> jsstring) option \<Rightarrow> (jsstring \<times> jsstring) option" where
  "cons_to c r = (case r of None \<Rightarrow> None | Some (str, rest) \<Rightarrow> Some (c # str, rest))"

text \<open>
  The characters of a string literal after its opening quote, up to the closing one:
  the string denoted and the text that follows.
\<close>

fun parse_chars :: "jsstring \<Rightarrow> (jsstring \<times> jsstring) option" where
  "parse_chars [] = None"
| "parse_chars (c # cs) =
     (if c = dquote then Some ([], cs)
      else if c = bslash then
        (case cs of
           [] \<Rightarrow> None
         | e # r \<Rightarrow>
             if e = cu CHR ''u'' then
               (case r of
                  h1 # h2 # h3 # h4 # r' \<Rightarrow>
                    (case hex4 h1 h2 h3 h4 of
                       None \<Rightarrow> None
                     | Some u \<Rightarrow> cons_to u (parse_chars r'))
                | _ \<Rightarrow> None)
             else
               (case unescape e of
                  None \<Rightarrow> None
                | Some u \<Rightarrow> cons_to u (parse_chars r)))
      else if c < 0x20 then None
      else cons_to c (parse_chars cs))"

text \<open>
  A number literal: an optional minus, an integer part without a leading zero, an
  optional fraction, an optional exponent. Its value is the digits of both parts times a
  power of ten, rounded to a Number.
\<close>

definition lex_int :: "jsstring \<Rightarrow> (jsstring \<times> jsstring) option" where
  "lex_int s =
     (case s of
        [] \<Rightarrow> None
      | c # r \<Rightarrow>
          if c = cu CHR ''0'' then Some ([c], r)
          else if is_digit c then Some (c # takeWhile is_digit r, dropWhile is_digit r)
          else None)"

definition lex_frac :: "jsstring \<Rightarrow> (jsstring \<times> jsstring) option" where
  "lex_frac s =
     (case s of
        [] \<Rightarrow> Some ([], s)
      | c # r \<Rightarrow>
          if c = cu CHR ''.'' then
            (if takeWhile is_digit r = [] then None
             else Some (takeWhile is_digit r, dropWhile is_digit r))
          else Some ([], s))"

definition lex_sign :: "jsstring \<Rightarrow> int \<times> jsstring" where
  "lex_sign s =
     (case s of
        [] \<Rightarrow> (1, s)
      | c # r \<Rightarrow>
          if c = cu CHR ''+'' then (1, r)
          else if c = cu CHR ''-'' then (- 1, r)
          else (1, s))"

definition lex_exp :: "jsstring \<Rightarrow> (int \<times> jsstring) option" where
  "lex_exp s =
     (case s of
        [] \<Rightarrow> Some (0, s)
      | c # r \<Rightarrow>
          if c = cu CHR ''e'' \<or> c = cu CHR ''E'' then
            (let sr = lex_sign r
             in if takeWhile is_digit (snd sr) = [] then None
                else Some (fst sr * digits_value (takeWhile is_digit (snd sr)),
                           dropWhile is_digit (snd sr)))
          else Some (0, s))"

definition parse_unsigned :: "jsstring \<Rightarrow> (fraction \<times> jsstring) option" where
  "parse_unsigned s =
     (case lex_int s of
        None \<Rightarrow> None
      | Some (ip, s1) \<Rightarrow>
          (case lex_frac s1 of
             None \<Rightarrow> None
           | Some (fp, s2) \<Rightarrow>
               (case lex_exp s2 of
                  None \<Rightarrow> None
                | Some (ex, s3) \<Rightarrow>
                    Some (scale 10 (digits_value (ip @ fp), 1) (ex - int (length fp)), s3))))"

definition parse_number :: "jsstring \<Rightarrow> (number \<times> jsstring) option" where
  "parse_number s =
     (case s of
        [] \<Rightarrow> None
      | c # r \<Rightarrow>
          if c = cu CHR ''-'' then
            (case parse_unsigned r of
               None \<Rightarrow> None
             | Some (f, rest) \<Rightarrow> Some (negate (to_double f), rest))
          else
            (case parse_unsigned s of
               None \<Rightarrow> None
             | Some (f, rest) \<Rightarrow> Some (to_double f, rest)))"

definition strip_prefix :: "jsstring \<Rightarrow> jsstring \<Rightarrow> jsstring option" where
  "strip_prefix p s = (if take (length p) s = p then Some (drop (length p) s) else None)"

definition parse_literal :: "jsstring \<Rightarrow> json \<Rightarrow> jsstring \<Rightarrow> (json \<times> jsstring) option" where
  "parse_literal p v s = (case strip_prefix p s of None \<Rightarrow> None | Some r \<Rightarrow> Some (v, r))"

text \<open>
  The recursive descent, on a counter that bounds the number of values and list steps
  still to come; the length of the text is always enough. Each function returns the value
  read and the text after it.
\<close>

fun parse_value :: "nat \<Rightarrow> jsstring \<Rightarrow> (json \<times> jsstring) option"
  and parse_elements :: "nat \<Rightarrow> json list \<Rightarrow> jsstring \<Rightarrow> (json \<times> jsstring) option"
  and parse_members :: "nat \<Rightarrow> (jsstring \<times> json) list \<Rightarrow> jsstring \<Rightarrow> (json \<times> jsstring) option"
where
  "parse_value 0 s = None"
| "parse_value (Suc n) s =
     (case skip_ws s of
        [] \<Rightarrow> None
      | c # r \<Rightarrow>
          if c = cu CHR ''{'' then
            (case skip_ws r of
               [] \<Rightarrow> None
             | d # r' \<Rightarrow> if d = cu CHR ''}'' then Some (JObject [], r') else parse_members n [] r)
          else if c = cu CHR ''['' then
            (case skip_ws r of
               [] \<Rightarrow> None
             | d # r' \<Rightarrow> if d = cu CHR '']'' then Some (JArray [], r') else parse_elements n [] r)
          else if c = dquote then
            (case parse_chars r of
               None \<Rightarrow> None
             | Some (str, r') \<Rightarrow> Some (JString str, r'))
          else if c = cu CHR ''t'' then parse_literal (js ''true'') (JBool True) (c # r)
          else if c = cu CHR ''f'' then parse_literal (js ''false'') (JBool False) (c # r)
          else if c = cu CHR ''n'' then parse_literal (js ''null'') JNull (c # r)
          else
            (case parse_number (c # r) of
               None \<Rightarrow> None
             | Some (x, r') \<Rightarrow> Some (JNumber x, r')))"
| "parse_elements 0 acc s = None"
| "parse_elements (Suc n) acc s =
     (case parse_value n s of
        None \<Rightarrow> None
      | Some (v, r) \<Rightarrow>
          (case skip_ws r of
             [] \<Rightarrow> None
           | c # r' \<Rightarrow>
               if c = cu CHR '','' then parse_elements n (acc @ [v]) r'
               else if c = cu CHR '']'' then Some (JArray (acc @ [v]), r')
               else None))"
| "parse_members 0 acc s = None"
| "parse_members (Suc n) acc s =
     (case skip_ws s of
        [] \<Rightarrow> None
      | c # r \<Rightarrow>
          if c \<noteq> dquote then None
          else
            (case parse_chars r of
               None \<Rightarrow> None
             | Some (k, r1) \<Rightarrow>
                 (case skip_ws r1 of
                    [] \<Rightarrow> None
                  | c1 # r2 \<Rightarrow>
                      if c1 \<noteq> cu CHR '':'' then None
                      else
                        (case parse_value n r2 of
                           None \<Rightarrow> None
                         | Some (v, r3) \<Rightarrow>
                             (case skip_ws r3 of
                                [] \<Rightarrow> None
                              | c3 # r4 \<Rightarrow>
                                  if c3 = cu CHR '','' then
                                    parse_members n (create_property acc k v) r4
                                  else if c3 = cu CHR ''}'' then
                                    Some (JObject (create_property acc k v), r4)
                                  else None)))))"

definition JSON_parse :: "jsstring \<Rightarrow> json option" where
  "JSON_parse text =
     (case parse_value (length text) text of
        None \<Rightarrow> None
      | Some (v, rest) \<Rightarrow> if skip_ws rest = [] then Some v else None)"

subsection \<open>Requests, responses and \<open>fetch\<close>\<close>

text \<open>
  A request carries its URL in parsed form: \<open>searchParams\<close> is the list of name-value
  pairs that \<open>new URL(context.request.url).searchParams\<close> holds, in the order of the query
  string. The records are extensible, the extension standing for everything else a
  request or an invocation context carries.
\<close>

record URL =
  searchParams :: "(jsstring \<times> jsstring) list"

record request =
  url :: URL

record 'r event_context =
  request :: "'r request_scheme"

text \<open>\<open>URLSearchParams.get\<close>: the value of the first pair of that name, or \<open>null\<close>.\<close>

fun searchParams_get :: "(jsstring \<times> jsstring) list \<Rightarrow> jsstring \<Rightarrow> jsstring option" where
  "searchParams_get [] name = None"
| "searchParams_get (nv # rest) name =
     (if fst nv = name then Some (snd nv) else searchParams_get rest name)"

text \<open>
  A value that is a string or \<open>null\<close> (\<open>None\<close>): its truthiness, \<open>a || b\<close>, and its
  conversion to a string in a template literal.
\<close>

definition truthy :: "jsstring option \<Rightarrow> bool" where
  "truthy v \<longleftrightarrow> (case v of None \<Rightarrow> False | Some s \<Rightarrow> s \<noteq> [])"

definition or_else :: "jsstring option \<Rightarrow> jsstring option \<Rightarrow> jsstring option" where
  "or_else a b = (if truthy a then a else b)"

definition ToString :: "jsstring option \<Rightarrow> jsstring" where
  "ToString v = (case v of None \<Rightarrow> js ''null'' | Some s \<Rightarrow> s)"

record response =
  status :: nat
  headers :: "(jsstring \<times> jsstring) list"
  body :: jsstring

text \<open>\<open>new Response(body, init)\<close>: the status is 200 unless \<open>init\<close> gives one.\<close>

definition new_Response :: "jsstring \<Rightarrow> nat option \<Rightarrow> (jsstring \<times> jsstring) list \<Rightarrow> response" where
  "new_Response b st hs =
     \<lparr>status = (case st of None \<Rightarrow> 200 | Some n \<Rightarrow> n), headers = hs, body = b\<rparr>"

definition ok :: "response \<Rightarrow> bool" where
  "ok res \<longleftrightarrow> 200 \<le> status res \<and> status res \<le> 299"

datatype js_error = TypeError | SyntaxError

text \<open>
  \<open>res.json()\<close> reads the body as JSON text and throws a \<open>SyntaxError\<close> when it is
  not. The body of a response is its text, already decoded.
\<close>

definition json :: "response \<Rightarrow> js_error + json" where
  "json res = (case JSON_parse (body res) of None \<Rightarrow> Inl SyntaxError | Some v \<Rightarrow> Inr v)"

text \<open>
  The network answers a URL with a response, or fails, and then \<open>fetch\<close> throws a
  \<open>TypeError\<close>. A run of a handler yields its result, a response or the error thrown,
  and the list of the URLs it fetched.
\<close>

type_synonym network = "jsstring \<Rightarrow> js_error + response"

type_synonym run = "(js_error + response) \<times> jsstring list"

definition fetch :: "network \<Rightarrow> jsstring \<Rightarrow> (js_error + response) \<times> jsstring list" where
  "fetch net u = (net u, [u])"

subsection \<open>The handlers\<close>

definition json_headers :: "(jsstring \<times> jsstring) list" where
  "json_headers = [(js ''Content-Type'', js ''application/json'')]"

definition error_object :: "string \<Rightarrow> json" where
  "error_object msg = JObject [(js ''error'', JString (js msg))]"

definition fileUrl_of :: "jsstring option \<Rightarrow> jsstring" where
  "fileUrl_of id' =
     js ''https://china-auto-dashboard.pages.dev/api/koubei_summary_'' @ ToString id' @ js ''.json''"

text \<open>
  \<^verbatim>\<open>functions/api/koubei.js\<close>, the strict variant:
  \<^verbatim>\<open>
  export async function onRequestGet(context) {
    const url = new URL(context.request.url);
    const id = url.searchParams.get("id");
    if (!id) {
      return new Response(JSON.stringify({ error: "missing id" }), {
        status: 400,
        headers: { "Content-Type": "application/json" },
      });
    }
    const fileUrl = `https://china-auto-dashboard.pages.dev/api/koubei_summary_${id}.json`;
    const res = await fetch(fileUrl);
    if (!res.ok) {
      return new Response(JSON.stringify({ error: "file not found" }), {
        status: 404,
        headers: { "Content-Type": "application/json" },
      });
    }
    const data = await res.json();
    return new Response(JSON.stringify(data), {
      headers: { "Content-Type": "application/json" },
    });
  }
  \<close>
  The variable \<open>id\<close> is written \<open>id'\<close>. Each \<open>await\<close> either yields a value or
  throws; nothing in the function catches, so an error thrown ends the run (\<open>Inl\<close>).
\<close>

definition koubei_onRequestGet :: "network \<Rightarrow> ('r, 'c) event_context_scheme \<Rightarrow> run" where
  "koubei_onRequestGet net context =
     (let u = url (request context);
          id' = searchParams_get (searchParams u) (js ''id'')
      in if \<not> truthy id' then
           (Inr (new_Response (JSON_stringify (error_object ''missing id'') 0) (Some 400) json_headers), [])
         else
           (let fileUrl = fileUrl_of id';
                fetched = fetch net fileUrl
            in case fst fetched of
                 Inl e \<Rightarrow> (Inl e, snd fetched)
               | Inr res \<Rightarrow>
                   if \<not> ok res then
                     (Inr (new_Response (JSON_stringify (error_object ''file not found'') 0)
                            (Some 404) json_headers), snd fetched)
                   else
                     (case json res of
                        Inl e \<Rightarrow> (Inl e, snd fetched)
                      | Inr data \<Rightarrow>
                          (Inr (new_Response (JSON_stringify data 0) None json_headers),
                           snd fetched))))"

text \<open>
  The second file, the lenient variant:
  \<^verbatim>\<open>
  export async function onRequestGet(context) {
    const url = new URL(context.request.url);
    const id = url.searchParams.get("id") || "197";
    const fileUrl = `https://china-auto-dashboard.pages.dev/api/koubei_summary_${id}.json`;
    const res = await fetch(fileUrl);
    if (!res.ok) {
      return new Response(JSON.stringify({ error: "File not found" }), {
        status: 404,
        headers: { "Content-Type": "application/json" },
      });
    }
    const data = await res.json();
    return new Response(JSON.stringify(data, null, 2), {
      headers: { "Content-Type": "application/json" },
    });
  }
  \<close>
\<close>

definition part_000_onRequestGet :: "network \<Rightarrow> ('r, 'c) event_context_scheme \<Rightarrow> run" where
  "part_000_onRequestGet net context =
     (let u = url (request context);
          id' = or_else (searchParams_get (searchParams u) (js ''id'')) (Some (js ''197''));
          fileUrl = fileUrl_of id';
          fetched = fetch net fileUrl
      in case fst fetched of
           Inl e \<Rightarrow> (Inl e, snd fetched)
         | Inr res \<Rightarrow>
             if \<not> ok res then
               (Inr (new_Response (JSON_stringify (error_object ''File not found'') 0)
                      (Some 404) json_headers), snd fetched)
             else
               (case json res of
                  Inl e \<Rightarrow> (Inl e, snd fetched)
                | Inr data \<Rightarrow>
                    (Inr (new_Response (JSON_stringify data 2) None json_headers),
                     snd fetched)))"

text \<open>The \<open>id\<close> parameter of a request, as both handlers read it.\<close>

definition id_param :: "('r, 'c) event_context_scheme \<Rightarrow> jsstring option" where
  "id_param context = searchParams_get (searchParams (url (request context))) (js ''id'')"

text \<open>A request whose query string is the given list of pairs, and nothing else.\<close>

definition get_request :: "(jsstring \<times> jsstring) list \<Rightarrow> (unit, unit) event_context_scheme" where
  "get_request query = \<lparr>request = \<lparr>url = \<lparr>searchParams = query\<rparr>\<rparr>\<rparr>"

text \<open>A network on which every URL is answered with the same status and body.\<close>

definition answering :: "nat \<Rightarrow> jsstring \<Rightarrow> network" where
  "answering st b = (\<lambda>u. Inr \<lparr>status = st, headers = [], body = b\<rparr>)"

section \<open>Notions for the proofs\<close>

text \<open>The rational value of a fraction, and rounding to an integer, ties to even.\<close>

definition fval :: "fraction \<Rightarrow> rat" where
  "fval f = of_int (fst f) / of_int (snd f)"

definition rhe :: "rat \<Rightarrow> int" where
  "rhe x =
     (let n = \<lfloor>x\<rfloor>; r = x - of_int n
      in if r < 1 / 2 then n else if 1 / 2 < r then n + 1 else if even n then n else n + 1)"

text \<open>
  The text after a number literal must not continue it: it is empty, or starts with a
  character that is no digit, point or exponent mark.
\<close>

definition number_end :: "jsstring \<Rightarrow> bool" where
  "number_end rest \<longleftrightarrow>
     (case rest of
        [] \<Rightarrow> True
      | c # _ \<Rightarrow> \<not> is_digit c \<and> c \<noteq> cu CHR ''.'' \<and> c \<noteq> cu CHR ''e'' \<and> c \<noteq> cu CHR ''E'')"

text \<open>
  The keys of an object in the order of enumeration: no key twice, every array index
  below the array indices that follow it, and no array index after another key.
\<close>

fun canonical_keys :: "jsstring list \<Rightarrow> bool" where
  "canonical_keys [] = True"
| "canonical_keys (k # ks) =
     (k \<notin> set ks \<and> canonical_keys ks
      \<and> (if is_array_index k
         then (\<forall>k' \<in> set ks. is_array_index k' \<longrightarrow> digits_value k < digits_value k')
         else (\<forall>k' \<in> set ks. \<not> is_array_index k')))"

text \<open>
  The values \<open>JSON.parse\<close> returns: every finite Number is a double in its one form, and
  the keys of every object are in the order of enumeration.
\<close>

fun well_formed :: "json \<Rightarrow> bool" where
  "well_formed JNull = True"
| "well_formed (JBool b) = True"
| "well_formed (JNumber x) = (case x of Finite m p \<Rightarrow> is_double m p | _ \<Rightarrow> True)"
| "well_formed (JString s) = True"
| "well_formed (JArray vs) = (\<forall>v \<in> set vs. well_formed v)"
| "well_formed (JObject kvs) =
     (canonical_keys (map fst kvs) \<and> (\<forall>kv \<in> set kvs. well_formed (snd kv)))"

text \<open>A value none of whose Numbers is an infinity.\<close>

fun numbers_finite :: "json \<Rightarrow> bool" where
  "numbers_finite JNull = True"
| "numbers_finite (JBool b) = True"
| "numbers_finite (JNumber x) = (case x of Finite m p \<Rightarrow> True | _ \<Rightarrow> False)"
| "numbers_finite (JString s) = True"
| "numbers_finite (JArray vs) = (\<forall>v \<in> set vs. numbers_finite v)"
| "numbers_finite (JObject kvs) = (\<forall>kv \<in> set kvs. numbers_finite (snd kv))"

text \<open>A count of parsing steps that is enough to read a value back.\<close>

fun need :: "json \<Rightarrow> nat" where
  "need (JArray vs) = Suc (sum_list (map (\<lambda>v. Suc (need v)) vs))"
| "need (JObject kvs) = Suc (sum_list (map (\<lambda>kv. Suc (need (snd kv))) kvs))"
| "need v = 1"

text \<open>
  What may follow a value in JSON text, and how the text of a value starts: not with
  white space and not with a closing bracket.
\<close>

definition delimited :: "jsstring \<Rightarrow> bool" where
  "delimited r \<longleftrightarrow>
     (case r of
        [] \<Rightarrow> True
      | c # _ \<Rightarrow> c = cu CHR '','' \<or> c = cu CHR '']'' \<or> c = cu CHR ''}'' \<or> is_ws c)"


definition starts_value :: "jsstring \<Rightarrow> bool" where
  "starts_value t \<longleftrightarrow>
     (case t of
        [] \<Rightarrow> False
      | c # _ \<Rightarrow> \<not> is_ws c \<and> c \<noteq> cu CHR '']'' \<and> c \<noteq> cu CHR ''}'')"

text \<open>
  The text of one member of an object, the value written by \<open>text\<close> and \<open>sp\<close> the white
  space after the colon; and the creation of a property from a pair.
\<close>

definition member_text :: "jsstring \<Rightarrow> (json \<Rightarrow> jsstring) \<Rightarrow> jsstring \<times> json \<Rightarrow> jsstring" where
  "member_text sp text kv = QuoteJSONString (fst kv) @ 58 # sp @ text (snd kv)"

definition put :: "(jsstring \<times> json) list \<Rightarrow> jsstring \<times> json \<Rightarrow> (jsstring \<times> json) list" where
  "put acc kv = create_property acc (fst kv) (snd kv)"

section \<open>Numbers: rounding and printing\<close>

lemma snd_scale_pos: "0 < snd f \<Longrightarrow> 0 < base \<Longrightarrow> 0 < snd (scale base f e)"
  by (simp add: scale_def)

lemma fst_scale_pos: "0 < fst f \<Longrightarrow> 0 < base \<Longrightarrow> 0 < fst (scale base f e)"
  by (simp add: scale_def)

lemma fval_scale:
  assumes "0 < base"
  shows "fval (scale base f e) = fval f * of_int base powi e"
proof (cases "0 \<le> e")
  case True
  then show ?thesis
    by (simp add: fval_def scale_def power_int_nonneg_exp)
next
  case False
  then have "of_int base powi e = (1 :: rat) / of_int base ^ nat (- e)"
    by (metis (no_types, opaque_lifting) add.inverse_inverse less_le_not_le linorder_le_cases
        neg_0_le_iff_le power_int_minus_divide power_int_nonneg_exp)
  with False show ?thesis
    by (simp add: fval_def scale_def)
qed

lemma round_half_even_rhe:
  assumes "0 < snd f"
  shows "round_half_even f = rhe (fval f)"
proof -
  obtain a b where f: "f = (a, b)" by (cases f)
  with assms have b: "0 < b" by simp
  have fl: "\<lfloor>fval (a, b)\<rfloor> = a div b"
    by (simp add: fval_def floor_divide_of_int_eq)
  have "(of_int a :: rat) = of_int (a div b) * of_int b + of_int (a mod b)"
    by (metis div_mult_mod_eq of_int_add of_int_mult)
  then have "(of_int a :: rat) / of_int b = of_int (a div b) + of_int (a mod b) / of_int b"
    using b by (simp add: field_simps)
  then have r: "fval (a, b) - of_int (a div b) = of_int (a mod b) / of_int b"
    by (simp add: fval_def)
  have lt: "of_int (a mod b) / (of_int b :: rat) < 1 / 2 \<longleftrightarrow> 2 * (a mod b) < b"
  proof -
    have "of_int (a mod b) / (of_int b :: rat) < 1 / 2 \<longleftrightarrow> (of_int (2 * (a mod b)) :: rat) < of_int b"
      using b by (simp add: field_simps)
    then show ?thesis by (simp only: of_int_less_iff)
  qed
  have gt: "1 / 2 < of_int (a mod b) / (of_int b :: rat) \<longleftrightarrow> b < 2 * (a mod b)"
  proof -
    have "1 / 2 < of_int (a mod b) / (of_int b :: rat) \<longleftrightarrow> (of_int b :: rat) < of_int (2 * (a mod b))"
      using b by (simp add: field_simps)
    then show ?thesis by (simp only: of_int_less_iff)
  qed
  show ?thesis
    unfolding f rhe_def round_half_even_def Let_def fl r lt gt fst_conv snd_conv ..
qed

lemma rhe_of_int [simp]: "rhe (of_int n) = n"
  by (simp add: rhe_def)

lemma rhe_bounds: "\<lfloor>x\<rfloor> \<le> rhe x \<and> rhe x \<le> \<lfloor>x\<rfloor> + 1"
  by (simp add: rhe_def Let_def)

lemma ndigits_nonpos: "n \<le> 0 \<Longrightarrow> ndigits base n = 0"
  by (subst ndigits.simps) simp

lemma ndigits_step: "0 < n \<Longrightarrow> 1 < base \<Longrightarrow> ndigits base n = 1 + ndigits base (n div base)"
  by (subst ndigits.simps) simp

lemma ndigits_bounds:
  assumes "0 < n" and "1 < base"
  shows "0 < ndigits base n \<and> base ^ (nat (ndigits base n) - 1) \<le> n
    \<and> n < base ^ nat (ndigits base n)"
  using assms
proof (induction base n rule: ndigits.induct)
  case (1 base n)
  have dm: "n = base * (n div base) + n mod base"
    by simp
  have m: "0 \<le> n mod base" "n mod base < base"
    using 1(3) by simp_all
  show ?case
  proof (cases "n div base \<le> 0")
    case True
    have "0 \<le> n div base"
      using 1(2,3) by (simp add: pos_imp_zdiv_nonneg_iff)
    with True have z: "n div base = 0"
      by simp
    with dm m have "n < base"
      by (metis add_0 mult_zero_right)
    moreover from z 1(2,3) have "ndigits base n = 1"
      by (simp add: ndigits_step ndigits_nonpos)
    ultimately show ?thesis
      using 1(2) by simp
  next
    case False
    then have pos: "0 < n div base"
      by simp
    let ?d = "ndigits base (n div base)"
    from 1 pos have IH: "0 < ?d" "base ^ (nat ?d - 1) \<le> n div base" "n div base < base ^ nat ?d"
      by auto
    obtain k where k: "nat ?d = Suc k"
      using IH(1) by (cases "nat ?d") auto
    have nd: "ndigits base n = 1 + ?d"
      using 1(2,3) by (simp add: ndigits_step)
    have nn: "nat (1 + ?d) = Suc (Suc k)"
      using k IH(1) by (simp add: nat_add_distrib)
    have "base * base ^ k \<le> base * (n div base)"
      using IH(2) 1(3) k by (simp add: mult_left_mono)
    with dm m have "base * base ^ k \<le> n"
      by linarith
    then have a: "base ^ Suc k \<le> n"
      by simp
    have "n div base + 1 \<le> base ^ Suc k"
      using IH(3) k by simp
    then have "base * (n div base + 1) \<le> base * base ^ Suc k"
      using 1(3) by (simp add: mult_left_mono)
    then have "base * (n div base) + base \<le> base ^ Suc (Suc k)"
      by (simp add: algebra_simps)
    with dm m have b: "n < base ^ Suc (Suc k)"
      by linarith
    show ?thesis
      using IH(1) a b by (simp add: nd nn)
  qed
qed

lemma ndigits_rat:
  assumes "0 < n" and "1 < base"
  shows "(of_int base :: rat) powi (ndigits base n - 1) \<le> of_int n"
    and "(of_int n :: rat) < of_int base powi ndigits base n"
proof -
  let ?d = "ndigits base n"
  from ndigits_bounds [OF assms]
  have d: "0 < ?d" and lo: "base ^ (nat ?d - 1) \<le> n" and hi: "n < base ^ nat ?d"
    by simp_all
  have "(of_int base :: rat) powi (?d - 1) = of_int base ^ (nat ?d - 1)"
    using d by (simp add: power_int_nonneg_exp nat_diff_distrib)
  also have "\<dots> = of_int (base ^ (nat ?d - 1))"
    by simp
  also have "\<dots> \<le> of_int n"
    using lo by (simp only: of_int_le_iff)
  finally show "(of_int base :: rat) powi (?d - 1) \<le> of_int n" .
  have "(of_int n :: rat) < of_int (base ^ nat ?d)"
    using hi by (simp only: of_int_less_iff)
  also have "\<dots> = of_int base powi ?d"
    using d by (simp add: power_int_nonneg_exp)
  finally show "(of_int n :: rat) < of_int base powi ?d" .
qed

lemma one_le_fval: "0 < snd g \<Longrightarrow> snd g \<le> fst g \<longleftrightarrow> 1 \<le> fval g"
  by (simp add: fval_def pos_le_divide_eq)

lemma fval_pos: "0 < fst f \<Longrightarrow> 0 < snd f \<Longrightarrow> 0 < fval f"
  by (simp add: fval_def)

lemma ilog_bounds:
  assumes a: "0 < fst f" and b: "0 < snd f" and base: "1 < base"
  shows "of_int base powi ilog base f \<le> fval f"
    and "fval f < of_int base powi (ilog base f + 1)"
proof -
  let ?B = "of_int base :: rat"
  let ?da = "ndigits base (fst f)" and ?db = "ndigits base (snd f)"
  let ?d = "?da - ?db"
  let ?g = "scale base f (- ?d)"
  have B: "0 < ?B" "1 \<le> ?B" "?B \<noteq> 0"
    using base by simp_all
  have bpos: "0 < base"
    using base by simp
  have fv: "fval f = of_int (fst f) / of_int (snd f)"
    by (simp add: fval_def)
  have up: "fval f < ?B powi (?d + 1)"
  proof -
    have "fval f < ?B powi ?da / of_int (snd f)"
      unfolding fv using ndigits_rat(2) [OF a base] b by (simp add: divide_strict_right_mono)
    also have "\<dots> \<le> ?B powi ?da / ?B powi (?db - 1)"
      using ndigits_rat(1) [OF b base] B by (simp add: frac_le)
    also have "\<dots> = ?B powi (?da - (?db - 1))"
      using B power_int_diff [of ?B ?da "?db - 1"] by simp
    also have "?da - (?db - 1) = ?d + 1"
      by simp
    finally show ?thesis .
  qed
  have low: "?B powi (?d - 1) < fval f"
  proof -
    have "?d - 1 = ?da - 1 - ?db"
      by simp
    then have "?B powi (?d - 1) = ?B powi (?da - 1 - ?db)"
      by (rule arg_cong)
    also have "\<dots> = ?B powi (?da - 1) / ?B powi ?db"
      using B power_int_diff [of ?B "?da - 1" ?db] by simp
    also have "\<dots> \<le> of_int (fst f) / ?B powi ?db"
      using ndigits_rat(1) [OF a base] B by (simp add: divide_right_mono)
    also have "\<dots> < of_int (fst f) / of_int (snd f)"
      using ndigits_rat(2) [OF b base] a b by (simp add: divide_strict_left_mono)
    finally show ?thesis
      by (simp add: fv)
  qed
  have g: "snd ?g \<le> fst ?g \<longleftrightarrow> ?B powi ?d \<le> fval f"
  proof -
    have "snd ?g \<le> fst ?g \<longleftrightarrow> 1 \<le> fval f * ?B powi (- ?d)"
      using one_le_fval [of ?g] snd_scale_pos [OF b bpos] fval_scale [OF bpos] by simp
    also have "fval f * ?B powi (- ?d) = fval f / ?B powi ?d"
      by (simp only: power_int_minus_divide times_divide_eq_right mult_1_right)
    also have "1 \<le> fval f / ?B powi ?d \<longleftrightarrow> ?B powi ?d \<le> fval f"
      using B(1) pos_le_divide_eq [of "?B powi ?d" 1 "fval f"] by simp
    finally show ?thesis .
  qed
  show "?B powi ilog base f \<le> fval f"
    using g low by (auto simp add: ilog_def Let_def)
  show "fval f < ?B powi (ilog base f + 1)"
    using g up by (auto simp add: ilog_def Let_def)
qed

lemma powi_exponent_unique:
  fixes x :: rat
  assumes "1 < B" and "B powi e \<le> x" and "x < B powi (e + 1)"
    and "B powi e' \<le> x" and "x < B powi (e' + 1)"
  shows "e = e'"
proof (rule ccontr)
  assume "e \<noteq> e'"
  then consider "e + 1 \<le> e'" | "e' + 1 \<le> e"
    by linarith
  then show False
  proof cases
    case 1
    then have "B powi (e + 1) \<le> B powi e'"
      using assms(1) by (simp add: power_int_increasing)
    with assms show False
      by linarith
  next
    case 2
    then have "B powi (e' + 1) \<le> B powi e"
      using assms(1) by (simp add: power_int_increasing)
    with assms show False
      by linarith
  qed
qed

lemma powi_less_cancel:
  fixes B :: rat
  assumes "1 < B" and "B powi m < B powi n"
  shows "m < n"
proof (rule ccontr)
  assume "\<not> m < n"
  then have "B powi n \<le> B powi m"
    using assms(1) by (simp add: power_int_increasing)
  with assms(2) show False
    by simp
qed

lemma ilog_eqI:
  assumes "0 < fst f" and "0 < snd f" and "1 < base"
    and "of_int base powi e \<le> fval f" and "fval f < of_int base powi (e + 1)"
  shows "ilog base f = e"
  using powi_exponent_unique [of "of_int base" "ilog base f" "fval f" e]
    ilog_bounds [OF assms(1-3)] assms(3-5)
  by simp

lemma ilog_cong:
  assumes "0 < fst f" and "0 < snd f" and "0 < fst g" and "0 < snd g" and "1 < base"
    and "fval f = fval g"
  shows "ilog base f = ilog base g"
  using ilog_eqI [OF assms(1,2,5), of "ilog base g"] ilog_bounds [OF assms(3,4,5)] assms(6)
  by simp

lemma to_double_pos_cong:
  assumes "0 < fst f" and "0 < snd f" and "0 < fst g" and "0 < snd g"
    and "fval f = fval g"
  shows "to_double_pos f = to_double_pos g"
proof -
  have i: "ilog 2 f = ilog 2 g"
    using assms by (intro ilog_cong) simp_all
  have "round_half_even (scale 2 f e) = round_half_even (scale 2 g e)" for e
    using assms by (simp add: round_half_even_rhe snd_scale_pos fval_scale)
  then show ?thesis
    by (simp add: to_double_pos_def i)
qed

lemma fval_scale2_int: "fval (scale 2 (m, 1) p) = of_int m * 2 powi p"
  using fval_scale [of 2 "(m, 1)" p] by (simp add: fval_def)

lemma rat_less_of_int_power: "m < 2 ^ n \<Longrightarrow> (of_int m :: rat) < 2 ^ n"
  by (metis of_int_less_iff of_int_numeral of_int_power)

lemma rat_le_of_int_power: "2 ^ n \<le> m \<Longrightarrow> (2 :: rat) ^ n \<le> of_int m"
  by (metis of_int_le_iff of_int_numeral of_int_power)

lemma to_double_pos_exact:
  assumes d: "is_double m p" and m: "0 < m"
  shows "to_double_pos (scale 2 (m, 1) p) = Finite m p"
proof -
  let ?f = "scale 2 (m, 1) p"
  let ?e = "ilog 2 ?f"
  have pos: "0 < fst ?f" "0 < snd ?f"
    using m by (simp_all add: fst_scale_pos snd_scale_pos)
  have x: "fval ?f = of_int m * 2 powi p"
    by (rule fval_scale2_int)
  from d m have m53: "m < 2 ^ 53" and p: "- 1074 \<le> p" "p \<le> 971"
    and m52: "- 1074 < p \<longrightarrow> 2 ^ 52 \<le> m"
    by (simp_all add: is_double_def)
  have b: "2 powi ?e \<le> fval ?f" "fval ?f < 2 powi (?e + 1)"
    using ilog_bounds [OF pos, of 2] by simp_all
  have "fval ?f < 2 ^ 53 * 2 powi p"
    unfolding x using rat_less_of_int_power [OF m53] by (simp add: mult_strict_right_mono)
  also have "\<dots> = 2 powi (53 + p)"
    by (simp add: power_int_add)
  finally have "2 powi ?e < (2 :: rat) powi (53 + p)"
    using b(1) by simp
  then have "?e < 53 + p"
    by (rule powi_less_cancel [rotated]) simp
  then have e_le: "?e \<le> 52 + p"
    by simp
  have e_eq: "?e = 52 + p" if "- 1074 < p"
  proof (rule ilog_eqI [OF pos])
    show "(1 :: int) < 2" by simp
    have "(2 :: rat) powi (52 + p) = 2 ^ 52 * 2 powi p"
      by (simp add: power_int_add)
    also have "\<dots> \<le> of_int m * 2 powi p"
      using rat_le_of_int_power [of 52 m] m52 that by (simp add: mult_right_mono)
    finally show "of_int 2 powi (52 + p) \<le> fval ?f"
      by (simp add: x)
    have "fval ?f < 2 ^ 53 * 2 powi p"
      unfolding x using rat_less_of_int_power [OF m53] by (simp add: mult_strict_right_mono)
    also have "\<dots> = 2 powi (52 + p + 1)"
      by (simp add: power_int_add)
    finally show "fval ?f < of_int 2 powi (52 + p + 1)"
      by simp
  qed
  have P: "max (?e - 52) (- 1074) = p"
    using e_le e_eq p by (cases "- 1074 < p") auto
  have "fval (scale 2 ?f (- p)) = of_int m * (2 powi p * 2 powi (- p))"
    by (simp add: fval_scale x)
  also have "2 powi p * 2 powi (- p) = (1 :: rat)"
    by (simp add: power_int_minus)
  finally have "round_half_even (scale 2 ?f (- p)) = m"
    using pos by (simp add: round_half_even_rhe snd_scale_pos)
  then show ?thesis
    using m53 p by (simp add: to_double_pos_def P)
qed

lemma to_double_pos_is_double:
  assumes pos: "0 < fst f" "0 < snd f" and r: "to_double_pos f = Finite m p"
  shows "is_double m p \<and> 0 \<le> m"
proof -
  define e where "e = ilog 2 f"
  define P where "P = max (e - 52) (- 1074)"
  define y where "y = fval (scale 2 f (- P))"
  define M where "M = round_half_even (scale 2 f (- P))"
  have b: "2 powi e \<le> fval f" "fval f < 2 powi (e + 1)"
    using ilog_bounds [OF pos, of 2] by (simp_all add: e_def)
  have y: "y = fval f * 2 powi (- P)"
    by (simp add: y_def fval_scale)
  have M: "M = rhe y"
    using pos by (simp add: M_def y_def round_half_even_rhe snd_scale_pos)
  have P_lo: "- 1074 \<le> P" and P_e: "e - 52 \<le> P"
    by (simp_all add: P_def)
  have "y < 2 powi (e + 1) * 2 powi (- P)"
    unfolding y using b(2) by (simp add: mult_strict_right_mono)
  also have "\<dots> = 2 powi (e + 1 - P)"
    by (simp add: power_int_add [symmetric])
  also have "\<dots> \<le> 2 powi 53"
    using P_e by (intro power_int_increasing) simp_all
  finally have "y < of_int (2 ^ 53)"
    by simp
  then have "\<lfloor>y\<rfloor> < 2 ^ 53"
    by (simp only: floor_less_iff)
  then have M_hi: "M \<le> 2 ^ 53"
    using rhe_bounds [of y] M by linarith
  have "0 \<le> y"
    unfolding y using fval_pos [OF pos] by simp
  then have "0 \<le> \<lfloor>y\<rfloor>"
    by simp
  then have M_nonneg: "0 \<le> M"
    using rhe_bounds [of y] M by linarith
  have M_lo: "2 ^ 52 \<le> M" if "- 1074 < P"
  proof -
    from that have P: "P = e - 52"
      unfolding P_def by linarith
    have "(2 :: rat) powi 52 = 2 powi e * 2 powi (- P)"
      by (simp add: P power_int_add [symmetric])
    also have "\<dots> \<le> y"
      unfolding y using b(1) by (simp add: mult_right_mono)
    finally have "of_int (2 ^ 52) \<le> y"
      by simp
    then have "2 ^ 52 \<le> \<lfloor>y\<rfloor>"
      by (simp only: le_floor_iff)
    then show ?thesis
      using rhe_bounds [of y] M by linarith
  qed
  have td: "to_double_pos f =
      (if M = 2 ^ 53 then (if 971 \<le> P then PosInfinity else Finite (2 ^ 52) (P + 1))
       else if 971 < P then PosInfinity else Finite M P)"
    unfolding to_double_pos_def Let_def M_def P_def e_def ..
  show ?thesis
  proof (cases "M = 2 ^ 53")
    case True
    with r td have "m = 2 ^ 52" "p = P + 1" "P < 971"
      by (simp_all split: if_splits)
    with P_lo show ?thesis
      by (simp add: is_double_def)
  next
    case False
    with r td have "m = M" "p = P" "P \<le> 971"
      by (simp_all split: if_splits)
    moreover from False M_hi have "M < 2 ^ 53"
      by simp
    ultimately show ?thesis
      using P_lo M_nonneg M_lo unfolding is_double_def by auto
  qed
qed

lemma to_double_is_double:
  assumes "0 < snd f" and "to_double f = Finite m p"
  shows "is_double m p"
proof -
  consider "fst f = 0" | "fst f < 0" | "0 < fst f"
    by linarith
  then show ?thesis
  proof cases
    case 1
    with assms show ?thesis
      by (simp add: to_double_def is_double_def)
  next
    case 2
    with assms obtain m' where "to_double_pos (- fst f, snd f) = Finite m' p" "m = - m'"
      by (auto simp add: to_double_def negate_def split: number.splits)
    with to_double_pos_is_double [of "(- fst f, snd f)" m' p] 2 assms(1)
    have "is_double m' p"
      by simp
    with \<open>m = - m'\<close> show ?thesis
      unfolding is_double_def by simp
  next
    case 3
    with assms to_double_pos_is_double [of f m p] show ?thesis
      by (simp add: to_double_def)
  qed
qed

lemma to_double_exact:
  assumes "is_double m p" and "0 < m"
  shows "to_double (scale 2 (m, 1) p) = Finite m p"
  using to_double_pos_exact [OF assms] fst_scale_pos [of "(m, 1)" 2 p] assms(2)
  by (simp add: to_double_def)

lemma to_double_cong:
  assumes "0 < fst f" and "0 < snd f" and "0 < fst g" and "0 < snd g"
    and "fval f = fval g"
  shows "to_double f = to_double g"
  using to_double_pos_cong [OF assms] assms(1,3) by (simp add: to_double_def)

lemma digits_of_nonpos: "n \<le> 0 \<Longrightarrow> digits_of n = []"
  by (subst digits_of.simps) simp

lemma digits_of_step:
  "0 < n \<Longrightarrow> digits_of n = digits_of (n div 10) @ [digit_char (n mod 10)]"
  by (subst digits_of.simps) simp

lemma uint_digit_char:
  assumes "0 \<le> d" and "d < 10"
  shows "uint (digit_char d) = 48 + d"
proof -
  have "uint (word_of_int (48 + d) :: 16 word) = (48 + d) mod 2 ^ LENGTH(16)"
    by (rule uint_word_of_int)
  also have "\<dots> = 48 + d"
    using assms by simp
  finally show ?thesis
    by (simp add: digit_char_def)
qed

lemma is_digit_iff: "is_digit c \<longleftrightarrow> 48 \<le> uint c \<and> uint c \<le> 57"
  by (simp add: is_digit_def word_le_def)

lemma is_digit_digit_char: "0 \<le> d \<Longrightarrow> d < 10 \<Longrightarrow> is_digit (digit_char d)"
  by (simp add: is_digit_iff uint_digit_char)

lemma digit_val_digit_char: "0 \<le> d \<Longrightarrow> d < 10 \<Longrightarrow> digit_val (digit_char d) = d"
  by (simp add: digit_val_def uint_digit_char)

lemma digit_char_zero: "digit_char 0 = 48"
  by (simp add: digit_char_def)

lemma digit_char_eq_zero_iff:
  assumes "0 \<le> d" and "d < 10"
  shows "digit_char d = 48 \<longleftrightarrow> d = 0"
proof
  assume "digit_char d = 48"
  then have "uint (digit_char d) = uint (48 :: code_unit)"
    by simp
  then show "d = 0"
    using assms by (simp add: uint_digit_char)
qed (simp add: digit_char_zero)

lemma digits_value_snoc [simp]:
  "digits_value (ds @ [c]) = 10 * digits_value ds + digit_val c"
  by (simp add: digits_value_def)

lemma digits_value_Nil [simp]: "digits_value [] = 0"
  by (simp add: digits_value_def)

lemma digits_value_append:
  "digits_value (xs @ ys) = digits_value xs * 10 ^ length ys + digits_value ys"
proof (induction ys rule: rev_induct)
  case Nil
  then show ?case by simp
next
  case (snoc y ys)
  have "digits_value (xs @ ys @ [y]) = 10 * digits_value (xs @ ys) + digit_val y"
    using digits_value_snoc [of "xs @ ys" y] by simp
  with snoc show ?case
    by (simp add: algebra_simps)
qed

lemma digits_of_all_digits: "list_all is_digit (digits_of n)"
proof (induction n rule: digits_of.induct)
  case (1 n)
  show ?case
  proof (cases "n \<le> 0")
    case True
    then show ?thesis by (simp add: digits_of_nonpos)
  next
    case False
    with 1 show ?thesis
      by (simp add: digits_of_step is_digit_digit_char)
  qed
qed

lemma digits_value_digits_of: "0 \<le> n \<Longrightarrow> digits_value (digits_of n) = n"
proof (induction n rule: digits_of.induct)
  case (1 n)
  show ?case
  proof (cases "n \<le> 0")
    case True
    with 1(2) show ?thesis by (simp add: digits_of_nonpos)
  next
    case False
    then have "0 \<le> n div 10"
      by simp
    with 1(1) False have "digits_value (digits_of (n div 10)) = n div 10"
      by simp
    with False show ?thesis
      by (simp add: digits_of_step digit_val_digit_char)
  qed
qed

lemma digits_of_nonempty: "0 < n \<Longrightarrow> digits_of n \<noteq> []"
  by (simp add: digits_of_step)

lemma hd_digits_of: "0 < n \<Longrightarrow> hd (digits_of n) \<noteq> 48"
proof (induction n rule: digits_of.induct)
  case (1 n)
  show ?case
  proof (cases "n div 10 \<le> 0")
    case True
    with 1(2) have "n div 10 = 0"
      by (simp add: order_antisym pos_imp_zdiv_nonneg_iff)
    then have "n mod 10 = n"
      by (metis add_0 div_mult_mod_eq mult_zero_left)
    with 1(2) True have "digits_of n = [digit_char n]" "n < 10"
      by (simp_all add: digits_of_step digits_of_nonpos)
    with 1(2) show ?thesis
      by (simp add: digit_char_eq_zero_iff)
  next
    case False
    with 1 have "hd (digits_of (n div 10)) \<noteq> 48" "digits_of (n div 10) \<noteq> []"
      by (simp_all add: digits_of_nonempty)
    with 1(2) show ?thesis
      by (simp add: digits_of_step)
  qed
qed

lemma length_digits_of: "length (digits_of n) = nat (ndigits 10 n)"
proof (induction n rule: digits_of.induct)
  case (1 n)
  show ?case
  proof (cases "n \<le> 0")
    case True
    then show ?thesis by (simp add: digits_of_nonpos ndigits_nonpos)
  next
    case False
    with 1 have "length (digits_of (n div 10)) = nat (ndigits 10 (n div 10))"
      by simp
    moreover have "0 \<le> ndigits 10 (n div 10)"
    proof (cases "0 < n div 10")
      case True
      then show ?thesis using ndigits_bounds [of "n div 10" 10] by simp
    next
      case False
      then show ?thesis by (simp add: ndigits_nonpos)
    qed
    ultimately show ?thesis
      using False by (simp add: digits_of_step ndigits_step nat_add_distrib)
  qed
qed

lemma length_digits_of_eq:
  assumes "10 ^ k \<le> n" and "n < 10 ^ Suc k"
  shows "length (digits_of n) = Suc k"
proof -
  have n: "0 < n"
  proof -
    have "(0 :: int) < 10 ^ k"
      by simp
    with assms(1) show ?thesis
      by linarith
  qed
  let ?d = "nat (ndigits 10 n)"
  from ndigits_bounds [OF n, of 10]
  have d: "0 < ndigits 10 n" and lo: "10 ^ (?d - 1) \<le> n" and hi: "n < 10 ^ ?d"
    by simp_all
  have "(10 :: int) ^ k < 10 ^ ?d"
    using assms(1) hi by linarith
  then have 1: "k < ?d"
    by simp
  have "(10 :: int) ^ (?d - 1) < 10 ^ Suc k"
    using assms(2) lo by linarith
  then have 2: "?d - 1 < Suc k"
    by (simp only: power_strict_increasing_iff [of "10 :: int"]) 
  from 1 2 show ?thesis
    by (simp add: length_digits_of)
qed

lemma takeWhile_digits:
  assumes "list_all is_digit ds" and "r = [] \<or> \<not> is_digit (hd r)"
  shows "takeWhile is_digit (ds @ r) = ds" and "dropWhile is_digit (ds @ r) = r"
proof -
  have r: "takeWhile is_digit r = []" "dropWhile is_digit r = r"
    using assms(2) by (cases r; simp)+
  from assms(1) have "\<And>x. x \<in> set ds \<Longrightarrow> is_digit x"
    by (simp add: list_all_iff)
  then show "takeWhile is_digit (ds @ r) = ds" and "dropWhile is_digit (ds @ r) = r"
    by (simp_all add: takeWhile_append2 dropWhile_append2 r)
qed

lemma number_end_no_digit: "number_end r \<Longrightarrow> r = [] \<or> \<not> is_digit (hd r)"
  by (cases r) (simp_all add: number_end_def)

lemma not_digit_chars [simp]:
  "\<not> is_digit 46" "\<not> is_digit 101" "\<not> is_digit 69" "\<not> is_digit 43" "\<not> is_digit 45"
  "is_digit 48"
  by (simp_all add: is_digit_def)

lemma lex_int_digits:
  assumes "ds \<noteq> []" and "list_all is_digit ds" and "hd ds \<noteq> 48"
    and "r = [] \<or> \<not> is_digit (hd r)"
  shows "lex_int (ds @ r) = Some (ds, r)"
proof -
  obtain c cs where ds: "ds = c # cs"
    using assms(1) by (cases ds) auto
  with assms(2) have "list_all is_digit cs" "is_digit c"
    by simp_all
  with takeWhile_digits [OF this(1) assms(4)] assms(3) show ?thesis
    by (simp add: lex_int_def ds)
qed

lemma lex_int_zero: "lex_int (48 # r) = Some ([48], r)"
  by (simp add: lex_int_def)

lemma lex_frac_none: "number_end r \<Longrightarrow> lex_frac r = Some ([], r)"
  by (cases r) (simp_all add: lex_frac_def number_end_def)

lemma lex_frac_digits:
  assumes "fs \<noteq> []" and "list_all is_digit fs" and "r = [] \<or> \<not> is_digit (hd r)"
  shows "lex_frac (46 # fs @ r) = Some (fs, r)"
  using takeWhile_digits [OF assms(2,3)] assms(1) by (simp add: lex_frac_def)

lemma lex_exp_none: "number_end r \<Longrightarrow> lex_exp r = Some (0, r)"
  by (cases r) (simp_all add: lex_exp_def number_end_def)

lemma decimal_digits:
  assumes "0 \<le> a"
  shows "decimal a \<noteq> []" and "list_all is_digit (decimal a)" and "digits_value (decimal a) = a"
proof -
  show "decimal a \<noteq> []"
    using assms by (simp add: decimal_def js_def digits_of_nonempty)
  show "list_all is_digit (decimal a)"
    by (simp add: decimal_def js_def digits_of_all_digits)
  show "digits_value (decimal a) = a"
  proof (cases "a = 0")
    case True
    then show ?thesis
      by (simp add: decimal_def js_def digits_value_def digit_val_def)
  next
    case False
    with assms show ?thesis
      by (simp add: decimal_def digits_value_digits_of)
  qed
qed

lemma lex_exp_signed:
  assumes "0 \<le> a" and "r = [] \<or> \<not> is_digit (hd r)"
  shows "lex_exp (js ''e-'' @ decimal a @ r) = Some (- a, r)"
    and "lex_exp (js ''e+'' @ decimal a @ r) = Some (a, r)"
proof -
  note d = decimal_digits [OF assms(1)]
  note t = takeWhile_digits [OF d(2) assms(2)]
  show "lex_exp (js ''e-'' @ decimal a @ r) = Some (- a, r)"
    using d(1) by (simp add: lex_exp_def lex_sign_def js_def Let_def t d(3))
  show "lex_exp (js ''e+'' @ decimal a @ r) = Some (a, r)"
    using d(1) by (simp add: lex_exp_def lex_sign_def js_def Let_def t d(3))
qed

lemma lex_exp_some:
  assumes "r = [] \<or> \<not> is_digit (hd r)"
  shows "lex_exp ((if e < 0 then js ''e-'' else js ''e+'') @ decimal \<bar>e\<bar> @ r) = Some (e, r)"
proof (cases "e < 0")
  case True
  then show ?thesis
    using lex_exp_signed(1) [of "- e" r] assms by simp
next
  case False
  then show ?thesis
    using lex_exp_signed(2) [of e r] assms by simp
qed

lemma list_all_replicate_zero: "list_all is_digit (replicate n 48)"
  by (induction n) simp_all

lemma digits_value_leading_zero: "digits_value (48 # ds) = digits_value ds"
  using digits_value_append [of "[48]" ds] by (simp add: digits_value_def digit_val_def)

lemma digits_value_replicate_zero [simp]: "digits_value (replicate n 48) = 0"
  by (induction n) (simp_all add: digits_value_leading_zero)

lemma digits_value_leading_zeros: "digits_value (replicate n 48 @ ds) = digits_value ds"
  using digits_value_append [of "replicate n 48" ds] by simp

lemma list_all_take_drop:
  "list_all P xs \<Longrightarrow> list_all P (take n xs) \<and> list_all P (drop n xs)"
  by (metis append_take_drop_id list_all_append)

lemma hd_take_pos: "0 < n \<Longrightarrow> hd (take n xs) = hd xs"
  by (cases xs; cases n) simp_all

lemma parse_unsigned_parts:
  assumes "lex_int s = Some (ip, s1)" and "lex_frac s1 = Some (fp, s2)"
    and "lex_exp s2 = Some (ex, s3)"
  shows "parse_unsigned s = Some (scale 10 (digits_value (ip @ fp), 1) (ex - int (length fp)), s3)"
  using assms by (simp add: parse_unsigned_def)

lemma parse_unsigned_format:
  assumes ne: "ds \<noteq> []" and dig: "list_all is_digit ds" and hd: "hd ds \<noteq> 48"
    and r: "number_end r"
  shows "parse_unsigned (format_digits ds n @ r)
    = Some (scale 10 (digits_value ds, 1) (n - int (length ds)), r)"
proof -
  let ?k = "int (length ds)"
  note nd = number_end_no_digit [OF r]
  have k: "0 < ?k"
    using ne by simp
  consider (int) "?k \<le> n" "n \<le> 21"
    | (point) "\<not> (?k \<le> n \<and> n \<le> 21)" "0 < n" "n \<le> 21"
    | (small) "\<not> (?k \<le> n \<and> n \<le> 21)" "\<not> (0 < n \<and> n \<le> 21)" "- 6 < n" "n \<le> 0"
    | (exp1) "\<not> (?k \<le> n \<and> n \<le> 21)" "\<not> (0 < n \<and> n \<le> 21)" "\<not> (- 6 < n \<and> n \<le> 0)" "?k = 1"
    | (expk) "\<not> (?k \<le> n \<and> n \<le> 21)" "\<not> (0 < n \<and> n \<le> 21)" "\<not> (- 6 < n \<and> n \<le> 0)" "?k \<noteq> 1"
    by linarith
  then show ?thesis
  proof cases
    case int
    let ?z = "replicate (nat (n - ?k)) (48 :: code_unit)"
    have f: "format_digits ds n = ds @ ?z"
      using int by (simp add: format_digits_def)
    have "lex_int ((ds @ ?z) @ r) = Some (ds @ ?z, r)"
      using ne dig hd nd by (intro lex_int_digits) (simp_all add: list_all_replicate_zero)
    from parse_unsigned_parts [OF this lex_frac_none [OF r] lex_exp_none [OF r]]
    have "parse_unsigned (format_digits ds n @ r)
        = Some (scale 10 (digits_value ((ds @ ?z) @ []), 1) (0 - int (length ([] :: jsstring))), r)"
      by (simp only: f)
    also have "digits_value ((ds @ ?z) @ []) = digits_value ds * 10 ^ nat (n - ?k)"
      by (simp add: digits_value_append)
    finally show ?thesis
      using int by (simp add: scale_def)
  next
    case point
    then have nk: "n < ?k"
      by linarith
    let ?a = "take (nat n) ds" and ?b = "drop (nat n) ds"
    have f: "format_digits ds n = ?a @ 46 # ?b"
      using point by (simp add: format_digits_def js_def)
    have a: "?a \<noteq> []" "list_all is_digit ?a" "hd ?a \<noteq> 48"
      using point ne hd list_all_take_drop [OF dig, of "nat n"] by (simp_all add: hd_take_pos)
    have b: "?b \<noteq> []" "list_all is_digit ?b"
      using nk point list_all_take_drop [OF dig, of "nat n"] by simp_all
    have 1: "lex_int (?a @ (46 # ?b @ r)) = Some (?a, 46 # ?b @ r)"
      using a by (intro lex_int_digits) simp_all
    have 2: "lex_frac (46 # ?b @ r) = Some (?b, r)"
      using b nd by (intro lex_frac_digits)
    from parse_unsigned_parts [OF 1 2 lex_exp_none [OF r]]
    have "parse_unsigned (format_digits ds n @ r)
        = Some (scale 10 (digits_value (?a @ ?b), 1) (0 - int (length ?b)), r)"
      by (simp add: f)
    moreover have "0 - int (length ?b) = n - ?k"
      using point nk by simp
    ultimately show ?thesis
      using point by simp
  next
    case small
    let ?z = "replicate (nat (- n)) (48 :: code_unit)"
    have f: "format_digits ds n = 48 # 46 # ?z @ ds"
      using small by (simp add: format_digits_def js_def)
    have 1: "lex_int (48 # 46 # (?z @ ds) @ r) = Some ([48], 46 # (?z @ ds) @ r)"
      by (rule lex_int_zero)
    have 2: "lex_frac (46 # (?z @ ds) @ r) = Some (?z @ ds, r)"
      using ne dig nd by (intro lex_frac_digits) (simp_all add: list_all_replicate_zero)
    from parse_unsigned_parts [OF 1 2 lex_exp_none [OF r]]
    have "parse_unsigned (format_digits ds n @ r)
        = Some (scale 10 (digits_value ([48] @ ?z @ ds), 1) (0 - int (length (?z @ ds))), r)"
      by (simp add: f)
    moreover have "digits_value ([48] @ ?z @ ds) = digits_value ds"
      by (simp add: digits_value_leading_zero digits_value_leading_zeros)
    moreover have "0 - int (length (?z @ ds)) = n - ?k"
      using small by simp
    ultimately show ?thesis
      by simp
  next
    case exp1
    then obtain d where ds: "ds = [d]"
      by (cases ds) auto
    let ?ex = "(if n - 1 < 0 then js ''e-'' else js ''e+'') @ decimal \<bar>n - 1\<bar>"
    have c: "(?k \<le> n \<and> n \<le> 21) = False" "(0 < n \<and> n \<le> 21) = False"
        "(- 6 < n \<and> n \<le> 0) = False" "(?k = 1) = True"
      using exp1 by simp_all
    have f: "format_digits ds n = ds @ ?ex"
      unfolding format_digits_def Let_def c if_False if_True ..
    have e_nd: "?ex @ r = [] \<or> \<not> is_digit (hd (?ex @ r))"
      by (simp add: js_def)
    have 1: "lex_int (ds @ ?ex @ r) = Some (ds, ?ex @ r)"
      using ne dig hd e_nd by (intro lex_int_digits)
    have 2: "lex_frac (?ex @ r) = Some ([], ?ex @ r)"
      by (simp add: lex_frac_def js_def)
    have 3: "lex_exp (?ex @ r) = Some (n - 1, r)"
      using lex_exp_some [OF nd, of "n - 1"] by simp
    from parse_unsigned_parts [OF 1 2 3]
    have "parse_unsigned (format_digits ds n @ r)
        = Some (scale 10 (digits_value (ds @ []), 1) (n - 1 - int (length ([] :: jsstring))), r)"
      by (simp add: f)
    then show ?thesis
      using exp1 by simp
  next
    case expk
    obtain d ds' where ds: "ds = d # ds'" "ds' \<noteq> []"
      using ne expk(4) by (cases ds) auto
    let ?ex = "(if n - 1 < 0 then js ''e-'' else js ''e+'') @ decimal \<bar>n - 1\<bar>"
    have c: "(?k \<le> n \<and> n \<le> 21) = False" "(0 < n \<and> n \<le> 21) = False"
        "(- 6 < n \<and> n \<le> 0) = False" "(?k = 1) = False"
      using expk by simp_all
    have "format_digits ds n = hd ds # js ''.'' @ tl ds @ ?ex"
      unfolding format_digits_def Let_def c if_False if_True ..
    then have f: "format_digits ds n = [d] @ 46 # ds' @ ?ex"
      by (simp add: ds js_def)
    have d: "is_digit d" "d \<noteq> 48" "list_all is_digit ds'"
      using dig hd ds by simp_all
    have e_nd: "?ex @ r = [] \<or> \<not> is_digit (hd (?ex @ r))"
      by (simp add: js_def)
    have 1: "lex_int ([d] @ 46 # ds' @ ?ex @ r) = Some ([d], 46 # ds' @ ?ex @ r)"
      using d by (intro lex_int_digits) simp_all
    have 2: "lex_frac (46 # ds' @ ?ex @ r) = Some (ds', ?ex @ r)"
      using ds(2) d(3) e_nd by (intro lex_frac_digits)
    have 3: "lex_exp (?ex @ r) = Some (n - 1, r)"
      using lex_exp_some [OF nd, of "n - 1"] by simp
    from parse_unsigned_parts [OF 1 2 3]
    have "parse_unsigned (format_digits ds n @ r)
        = Some (scale 10 (digits_value ([d] @ ds'), 1) (n - 1 - int (length ds')), r)"
      by (simp add: f)
    moreover have "n - 1 - int (length ds') = n - ?k"
      by (simp add: ds)
    ultimately show ?thesis
      by (simp add: ds)
  qed
qed

lemma fval_scale10_int: "fval (scale 10 (s, 1) e) = of_int s * 10 powi e"
  using fval_scale [of 10 "(s, 1)" e] by (simp add: fval_def)

lemma length_digits_of_power: "length (digits_of (10 ^ k)) = Suc k"
  by (rule length_digits_of_eq) simp_all

lemma norm_accepted:
  assumes lo: "10 ^ (k - 1) \<le> s" and hi: "s \<le> 10 ^ k" and k: "0 < k"
    and acc: "accepts m p s (n0 - int k)"
    and sn: "(s', n') = (if s = 10 ^ k then (10 ^ (k - 1), n0 + 1) else (s, n0))"
  shows "0 < s' \<and> to_double (scale 10 (s', 1) (n' - int (length (digits_of s')))) = Finite m p"
proof -
  obtain j where j: "k = Suc j"
    using k by (cases k) auto
  have spos: "0 < s"
  proof -
    have "(0 :: int) < 10 ^ (k - 1)" by simp
    with lo show ?thesis by linarith
  qed
  show ?thesis
  proof (cases "s = 10 ^ k")
    case True
    with sn have s': "s' = 10 ^ j" "n' = n0 + 1"
      by (simp_all add: j)
    have len: "int (length (digits_of s')) = int k"
      by (simp add: s' length_digits_of_power j)
    have "to_double (scale 10 (s', 1) (n0 + 1 - int k)) = to_double (scale 10 (s, 1) (n0 - int k))"
    proof (rule to_double_cong)
      show "0 < fst (scale 10 (s', 1) (n0 + 1 - int k))" "0 < snd (scale 10 (s', 1) (n0 + 1 - int k))"
        by (simp_all add: fst_scale_pos snd_scale_pos s')
      show "0 < fst (scale 10 (s, 1) (n0 - int k))" "0 < snd (scale 10 (s, 1) (n0 - int k))"
        using spos by (simp_all add: fst_scale_pos snd_scale_pos)
      have "(10 :: rat) powi (n0 + 1 - int k) = 10 powi (n0 - int k) * 10"
        using power_int_add_1 [of "10 :: rat" "n0 - int k"] by (simp add: algebra_simps)
      then show "fval (scale 10 (s', 1) (n0 + 1 - int k)) = fval (scale 10 (s, 1) (n0 - int k))"
        by (simp add: fval_scale10_int s' True j)
    qed
    with acc show ?thesis
      by (simp add: accepts_def s'(2) len) (simp add: s')
  next
    case False
    with sn have s': "s' = s" "n' = n0"
      by simp_all
    from False hi have "s < 10 ^ Suc j"
      by (simp add: j)
    with lo have "length (digits_of s) = Suc j"
      by (intro length_digits_of_eq) (simp_all add: j)
    with acc spos show ?thesis
      by (simp add: accepts_def s' j)
  qed
qed

lemma integral_fraction:
  assumes "0 < b" and "(of_int a :: rat) / of_int b \<in> \<int>"
  shows "a mod b = 0"
proof -
  from assms(2) obtain z where "(of_int a :: rat) / of_int b = of_int z"
    by (auto elim: Ints_cases)
  then have "(of_int a :: rat) = of_int (z * b)"
    using assms(1) by (simp add: field_simps)
  then have "a = z * b"
    by (simp only: of_int_eq_iff)
  then show ?thesis
    by simp
qed

lemma shortest_accepted:
  assumes pos: "0 < fst f" "0 < snd f"
    and n0: "10 powi (n0 - 1) \<le> fval f" "fval f < 10 powi n0"
    and td: "to_double f = Finite m p"
    and k: "0 < k"
    and exact: "fval f * 10 powi (int (k + fuel) - n0) \<in> \<int>"
    and res: "shortest m p f n0 k fuel = (s, n)"
  shows "0 < s \<and> to_double (scale 10 (s, 1) (n - int (length (digits_of s)))) = Finite m p"
  using k exact res
proof (induction fuel arbitrary: k)
  case (0 k)
  note step = this
  define g where "g = scale 10 f (int k - n0)"
  define lo where "lo = fst g div snd g"
  define r where "r = fst g mod snd g"
  define down where "down \<longleftrightarrow> 2 * r < snd g \<or> (2 * r = snd g \<and> even lo)"
  define s1 where "s1 = (if down then lo else lo + 1)"
  define s2 where "s2 = (if down then lo + 1 else lo)"
  define norm where "norm = (\<lambda>s. if s = 10 ^ k then (10 ^ (k - 1) :: int, n0 + 1) else (s, n0))"
  have unfold: "shortest m p f n0 k 0 =
      (if accepts m p s1 (n0 - int k) then norm s1
       else if accepts m p s2 (n0 - int k) then norm s2
       else norm lo)"
    by (simp only: shortest.simps [of m p f n0 k 0] Let_def g_def lo_def r_def down_def
        s1_def s2_def norm_def nat.case)
  have gpos: "0 < fst g" "0 < snd g"
    using pos by (simp_all add: g_def fst_scale_pos snd_scale_pos)
  have y: "fval g = fval f * 10 powi (int k - n0)"
    by (simp add: g_def fval_scale)
  have fl: "lo = \<lfloor>fval g\<rfloor>"
    by (simp add: lo_def fval_def floor_divide_of_int_eq)
  have "(10 :: rat) powi (int k - 1) = 10 powi (n0 - 1) * 10 powi (int k - n0)"
    by (simp add: power_int_add [symmetric])
  also have "\<dots> \<le> fval g"
    unfolding y using n0(1) by (simp add: mult_right_mono)
  finally have "of_int (10 ^ (k - 1)) \<le> fval g"
    using step(1) by (simp add: power_int_nonneg_exp nat_diff_distrib)
  then have lo_lo: "10 ^ (k - 1) \<le> lo"
    unfolding fl by (simp only: le_floor_iff)
  have "fval g < 10 powi n0 * 10 powi (int k - n0)"
    unfolding y using n0(2) by (simp add: mult_strict_right_mono)
  also have "\<dots> = 10 powi int k"
    by (simp add: power_int_add [symmetric])
  finally have "fval g < of_int (10 ^ k)"
    by simp
  then have lo_hi: "lo < 10 ^ k"
    unfolding fl by (simp only: floor_less_iff)
  have s1: "10 ^ (k - 1) \<le> s1" "s1 \<le> 10 ^ k" and s2: "10 ^ (k - 1) \<le> s2" "s2 \<le> 10 ^ k"
    using lo_lo lo_hi by (simp_all add: s1_def s2_def)
  have int: "fval g \<in> \<int>"
    using step(2) by (simp add: y)
  then have "r = 0"
    unfolding r_def using integral_fraction [OF gpos(2), of "fst g"] by (simp add: fval_def)
  then have "down"
    using gpos(2) by (simp add: down_def)
  then have s1_lo: "s1 = lo"
    by (simp add: s1_def)
  have lo_val: "of_int lo = fval g"
    unfolding fl using int by (metis Ints_cases floor_of_int)
  have lopos: "0 < lo"
  proof -
    have "(0 :: int) < 10 ^ (k - 1)" by simp
    with lo_lo show ?thesis by linarith
  qed
  have "to_double (scale 10 (lo, 1) (n0 - int k)) = to_double f"
  proof (rule to_double_cong)
    show "0 < fst (scale 10 (lo, 1) (n0 - int k))" "0 < snd (scale 10 (lo, 1) (n0 - int k))"
      using lopos by (simp_all add: fst_scale_pos snd_scale_pos)
    show "0 < fst f" "0 < snd f"
      by (rule pos)+
    have "fval (scale 10 (lo, 1) (n0 - int k)) = fval f * (10 powi (int k - n0) * 10 powi (n0 - int k))"
      by (simp add: fval_scale10_int lo_val y)
    also have "10 powi (int k - n0) * 10 powi (n0 - int k) = (1 :: rat)"
      by (simp add: power_int_add [symmetric])
    finally show "fval (scale 10 (lo, 1) (n0 - int k)) = fval f"
      by simp
  qed
  then have acc1: "accepts m p s1 (n0 - int k)"
    by (simp add: accepts_def s1_lo td)
  with unfold step(3) have "(s, n) = norm s1"
    by simp
  then have "(s, n) = (if s1 = 10 ^ k then (10 ^ (k - 1), n0 + 1) else (s1, n0))"
    by (simp add: norm_def)
  from norm_accepted [OF s1 step(1) acc1 this] show ?case .
next
  case (Suc fuel k)
  note step = this
  define g where "g = scale 10 f (int k - n0)"
  define lo where "lo = fst g div snd g"
  define r where "r = fst g mod snd g"
  define down where "down \<longleftrightarrow> 2 * r < snd g \<or> (2 * r = snd g \<and> even lo)"
  define s1 where "s1 = (if down then lo else lo + 1)"
  define s2 where "s2 = (if down then lo + 1 else lo)"
  define norm where "norm = (\<lambda>s. if s = 10 ^ k then (10 ^ (k - 1) :: int, n0 + 1) else (s, n0))"
  have unfold: "shortest m p f n0 k (Suc fuel) =
      (if accepts m p s1 (n0 - int k) then norm s1
       else if accepts m p s2 (n0 - int k) then norm s2
       else shortest m p f n0 (Suc k) fuel)"
    by (simp only: shortest.simps [of m p f n0 k "Suc fuel"] Let_def g_def lo_def r_def
        down_def s1_def s2_def norm_def nat.case)
  have y: "fval g = fval f * 10 powi (int k - n0)"
    by (simp add: g_def fval_scale)
  have fl: "lo = \<lfloor>fval g\<rfloor>"
    by (simp add: lo_def fval_def floor_divide_of_int_eq)
  have "(10 :: rat) powi (int k - 1) = 10 powi (n0 - 1) * 10 powi (int k - n0)"
    by (simp add: power_int_add [symmetric])
  also have "\<dots> \<le> fval g"
    unfolding y using n0(1) by (simp add: mult_right_mono)
  finally have "of_int (10 ^ (k - 1)) \<le> fval g"
    using step(2) by (simp add: power_int_nonneg_exp nat_diff_distrib)
  then have lo_lo: "10 ^ (k - 1) \<le> lo"
    unfolding fl by (simp only: le_floor_iff)
  have "fval g < 10 powi n0 * 10 powi (int k - n0)"
    unfolding y using n0(2) by (simp add: mult_strict_right_mono)
  also have "\<dots> = 10 powi int k"
    by (simp add: power_int_add [symmetric])
  finally have "fval g < of_int (10 ^ k)"
    by simp
  then have lo_hi: "lo < 10 ^ k"
    unfolding fl by (simp only: floor_less_iff)
  have s1: "10 ^ (k - 1) \<le> s1" "s1 \<le> 10 ^ k" and s2: "10 ^ (k - 1) \<le> s2" "s2 \<le> 10 ^ k"
    using lo_lo lo_hi by (simp_all add: s1_def s2_def)
  consider (a) "accepts m p s1 (n0 - int k)"
    | (b) "\<not> accepts m p s1 (n0 - int k)" "accepts m p s2 (n0 - int k)"
    | (c) "\<not> accepts m p s1 (n0 - int k)" "\<not> accepts m p s2 (n0 - int k)"
    by blast
  then show ?case
  proof cases
    case a
    with unfold step(4) have "(s, n) = norm s1"
      by simp
    then have "(s, n) = (if s1 = 10 ^ k then (10 ^ (k - 1), n0 + 1) else (s1, n0))"
      by (simp add: norm_def)
    from norm_accepted [OF s1 step(2) a this] show ?thesis .
  next
    case b
    with unfold step(4) have "(s, n) = norm s2"
      by simp
    then have "(s, n) = (if s2 = 10 ^ k then (10 ^ (k - 1), n0 + 1) else (s2, n0))"
      by (simp add: norm_def)
    from norm_accepted [OF s2 step(2) b(2) this] show ?thesis .
  next
    case c
    with unfold step(4) have "shortest m p f n0 (Suc k) fuel = (s, n)"
      by simp
    moreover have "fval f * 10 powi (int (Suc k + fuel) - n0) \<in> \<int>"
      using step(3) by simp
    ultimately show ?thesis
      by (intro step(1)) simp_all
  qed
qed

lemma dyadic_times_power_of_ten_integral:
  assumes "0 \<le> j" and "0 \<le> p + j"
  shows "(of_int m :: rat) * 2 powi p * 10 powi j \<in> \<int>"
proof -
  have "(10 :: rat) powi j = 2 powi j * 5 powi j"
    using power_int_mult_distrib [of "2 :: rat" 5 j] by simp
  then have "(of_int m :: rat) * 2 powi p * 10 powi j = of_int m * (2 powi p * 2 powi j) * 5 powi j"
    by simp
  also have "2 powi p * 2 powi j = (2 :: rat) powi (p + j)"
    by (simp add: power_int_add)
  also have "\<dots> = of_int (2 ^ nat (p + j))"
    using assms(2) by (simp add: power_int_nonneg_exp)
  also have "(5 :: rat) powi j = of_int (5 ^ nat j)"
    using assms(1) by (simp add: power_int_nonneg_exp)
  finally show ?thesis
    by (metis Ints_mult Ints_of_int)
qed

lemma shortest_digits_accepted:
  assumes d: "is_double m p" and m: "0 < m" and sn: "shortest_digits m p = (s, n)"
  shows "0 < s \<and> to_double (scale 10 (s, 1) (n - int (length (digits_of s)))) = Finite m p"
proof -
  define f where "f = scale 2 (m, 1) p"
  define n0 where "n0 = ilog 10 f + 1"
  define fuel where "fuel = nat (max n0 (n0 - p))"
  have pos: "0 < fst f" "0 < snd f"
    using m by (simp_all add: f_def fst_scale_pos snd_scale_pos)
  have b: "10 powi (n0 - 1) \<le> fval f" "fval f < 10 powi n0"
    using ilog_bounds [OF pos, of 10] by (simp_all add: n0_def)
  have td: "to_double f = Finite m p"
    unfolding f_def by (rule to_double_exact [OF d m])
  have j: "0 \<le> int (1 + fuel) - n0" "0 \<le> p + (int (1 + fuel) - n0)"
    unfolding fuel_def by linarith+
  have "fval f * 10 powi (int (1 + fuel) - n0) \<in> \<int>"
    unfolding f_def fval_scale2_int using j by (rule dyadic_times_power_of_ten_integral)
  moreover have "shortest m p f n0 1 fuel = (s, n)"
    using sn by (simp add: shortest_digits_def Let_def f_def n0_def fuel_def)
  ultimately show ?thesis
    using shortest_accepted [OF pos b td, of 1 fuel s n] by simp
qed

lemma parse_positive_toString:
  assumes d: "is_double m p" and m: "0 < m" and r: "number_end r"
  shows "\<exists>g. parse_unsigned (positive_toString m p @ r) = Some (g, r) \<and> to_double g = Finite m p"
proof -
  obtain s n where sn: "shortest_digits m p = (s, n)"
    by (cases "shortest_digits m p")
  from shortest_digits_accepted [OF d m sn]
  have s: "0 < s" and acc: "to_double (scale 10 (s, 1) (n - int (length (digits_of s)))) = Finite m p"
    by simp_all
  have "parse_unsigned (format_digits (digits_of s) n @ r)
      = Some (scale 10 (digits_value (digits_of s), 1) (n - int (length (digits_of s))), r)"
    using s r
    by (intro parse_unsigned_format) (simp_all add: digits_of_nonempty digits_of_all_digits hd_digits_of)
  with s acc show ?thesis
    by (simp add: positive_toString_def sn digits_value_digits_of)
qed

lemma parse_unsigned_starts_with_digit:
  assumes "parse_unsigned s = Some gr"
  shows "\<exists>c cs. s = c # cs \<and> is_digit c"
proof (cases s)
  case Nil
  with assms show ?thesis
    by (simp add: parse_unsigned_def lex_int_def)
next
  case (Cons c cs)
  with assms have "is_digit c"
    by (auto simp add: parse_unsigned_def lex_int_def split: if_splits)
  with Cons show ?thesis
    by simp
qed

lemma parse_number_unsigned:
  assumes "parse_unsigned s = Some (g, r)"
  shows "parse_number s = Some (to_double g, r)"
proof -
  from parse_unsigned_starts_with_digit [OF assms] obtain c cs where s: "s = c # cs" "is_digit c"
    by blast
  then have "c \<noteq> 45"
    by auto
  with assms s show ?thesis
    by (simp add: parse_number_def)
qed

lemma parse_number_toString:
  assumes d: "is_double m p" and r: "number_end r"
  shows "parse_number (Number_toString (Finite m p) @ r) = Some (Finite m p, r)"
proof -
  consider "m = 0" | "m < 0" | "0 < m"
    by linarith
  then show ?thesis
  proof cases
    case 1
    with d have p: "p = - 1074"
      by (simp add: is_double_def)
    have "parse_unsigned (48 # r) = Some (scale 10 (digits_value ([48] @ []), 1) (0 - int (length ([] :: jsstring))), r)"
      by (rule parse_unsigned_parts [OF lex_int_zero lex_frac_none [OF r] lex_exp_none [OF r]])
    then have "parse_unsigned (48 # r) = Some ((0, 1), r)"
      by (simp add: digits_value_leading_zero scale_def)
    from parse_number_unsigned [OF this] show ?thesis
      by (simp add: 1 p js_def to_double_def)
  next
    case 2
    then have "0 < - m" and "is_double (- m) p"
      using d by (simp_all add: is_double_def)
    from parse_positive_toString [OF this(2,1) r] obtain g
      where "parse_unsigned (positive_toString (- m) p @ r) = Some (g, r)"
        and "to_double g = Finite (- m) p"
      by blast
    with 2 show ?thesis
      by (simp add: parse_number_def js_def negate_def)
  next
    case 3
    from parse_positive_toString [OF d 3 r] obtain g
      where g: "parse_unsigned (positive_toString m p @ r) = Some (g, r)"
        and "to_double g = Finite m p"
      by blast
    with parse_number_unsigned [OF g] 3 show ?thesis
      by simp
  qed
qed

lemma Number_toString_first:
  assumes "is_double m p"
  shows "\<exists>c cs. Number_toString (Finite m p) = c # cs \<and> (is_digit c \<or> c = 45)"
proof -
  consider "m = 0" | "m < 0" | "0 < m"
    by linarith
  then show ?thesis
  proof cases
    case 1
    then show ?thesis by (simp add: js_def)
  next
    case 2
    then show ?thesis by (simp add: js_def)
  next
    case 3
    from parse_positive_toString [OF assms 3, of "[]"] obtain g
      where "parse_unsigned (positive_toString m p) = Some (g, [])"
      by (auto simp add: number_end_def)
    from parse_unsigned_starts_with_digit [OF this] 3 show ?thesis
      by auto
  qed
qed

section \<open>Strings: quoting and reading back\<close>

lemma hex_val_hex_char:
  assumes "d < 16"
  shows "hex_val (hex_char d) = Some (d :: code_unit)"
proof -
  have u: "unat d < 16"
    using assms by (simp add: word_less_nat_alt)
  show ?thesis
  proof (cases "d < 10")
    case True
    then have "unat d < 10"
      by (simp add: word_less_nat_alt)
    then have "0x30 \<le> 0x30 + d" "0x30 + d \<le> 0x39"
      by (simp_all add: word_le_nat_alt unat_word_ariths)
    with True show ?thesis
      by (simp add: hex_val_def hex_char_def)
  next
    case False
    then have "10 \<le> unat d"
      by (simp add: word_less_nat_alt)
    with u have "\<not> (0x30 \<le> 0x57 + d \<and> 0x57 + d \<le> 0x39)" "0x61 \<le> 0x57 + d" "0x57 + d \<le> 0x66"
      by (simp_all add: word_le_nat_alt unat_word_ariths)
    with False show ?thesis
      by (simp add: hex_val_def hex_char_def)
  qed
qed

lemma nibble_mod: "and (w :: code_unit) 0xF = w mod 16"
proof -
  have "and w 0xF = and w (mask 4)"
    by (simp add: mask_eq_exp_minus_1)
  also have "\<dots> = take_bit 4 w"
    by (simp only: take_bit_eq_mask)
  also have "\<dots> = w mod 2 ^ 4"
    by (rule take_bit_eq_mod)
  finally show ?thesis by simp
qed

lemma nibbles_less:
  fixes c w :: code_unit
  shows "drop_bit 12 c < 16" and "and w 0xF < 16"
proof -
  have "unat c < 65536"
    using unsigned_less [of c, where ?'a = nat] by simp
  then have "unat c div 4096 < 16"
    by simp
  then show "drop_bit 12 c < 16"
    by (simp add: drop_bit_eq_div word_less_nat_alt unat_div)
  show "and w 0xF < 16"
    by (simp add: nibble_mod word_less_nat_alt unat_mod)
qed

lemma nibbles_sum:
  fixes c :: code_unit
  shows "push_bit 12 (drop_bit 12 c) + push_bit 8 (and (drop_bit 8 c) 0xF)
    + push_bit 4 (and (drop_bit 4 c) 0xF) + and c 0xF = c"
proof -
  have c: "unat c < 65536"
    using unsigned_less [of c, where ?'a = nat] by simp
  have "unat (push_bit 12 (drop_bit 12 c) + push_bit 8 (and (drop_bit 8 c) 0xF)
    + push_bit 4 (and (drop_bit 4 c) 0xF) + and c 0xF)
    = (unat c div 4096 * 4096 + unat c div 256 mod 65536 mod 16 * 256
        + unat c div 16 mod 65536 mod 16 * 16 + unat c mod 16) mod 65536"
    by (simp add: nibble_mod push_bit_eq_mult drop_bit_eq_div unat_word_ariths unat_div unat_mod
        mod_simps)
  also have "\<dots> = unat c"
  proof -
    define n where "n = unat c"
    have d: "n div 256 = n div 16 div 16" "n div 4096 = n div 16 div 16 div 16"
      by (simp_all add: div_mult2_eq [symmetric])
    have 1: "n = n div 16 * 16 + n mod 16"
      by simp
    have 2: "n div 16 = n div 16 div 16 * 16 + n div 16 mod 16"
      by simp
    have 3: "n div 16 div 16 = n div 16 div 16 div 16 * 16 + n div 16 div 16 mod 16"
      by simp
    have m: "n div 256 mod 65536 = n div 256" "n div 16 mod 65536 = n div 16"
      using c by (simp_all add: n_def less_imp_diff_less div_less_dividend mod_less order_le_less_trans [OF div_le_dividend])
    have "n div 4096 * 4096 + n div 256 mod 16 * 256 + n div 16 mod 16 * 16 + n mod 16 = n"
      unfolding d using 1 2 3 by linarith
    then show ?thesis
      using c by (simp add: m n_def [symmetric])
  qed
  finally show ?thesis
    by (simp only: word_unat_eq_iff)
qed

lemma hex4_unicode_escape:
  "hex4 (hex_char (drop_bit 12 c)) (hex_char (and (drop_bit 8 c) 0xF))
     (hex_char (and (drop_bit 4 c) 0xF)) (hex_char (and c 0xF)) = Some c"
  by (simp add: hex4_def hex_val_hex_char nibbles_less nibbles_sum del: push_bit_and)

lemma parse_chars_escape:
  assumes "unescape e = Some u" and "e \<noteq> 117"
  shows "parse_chars (bslash # e # t) = cons_to u (parse_chars t)"
  using assms by (simp add: bslash_def dquote_def)

lemma parse_chars_unicode:
  "parse_chars (unicode_escape c @ t) = cons_to c (parse_chars t)"
  by (simp add: unicode_escape_def bslash_def dquote_def hex4_unicode_escape del: push_bit_and)

lemma parse_chars_literal:
  assumes "c \<noteq> dquote" and "c \<noteq> bslash" and "\<not> c < 0x20"
  shows "parse_chars (c # t) = cons_to c (parse_chars t)"
  using assms by simp

lemma surrogate_literal:
  assumes "is_high_surrogate c \<or> is_low_surrogate c"
  shows "c \<noteq> dquote" and "c \<noteq> bslash" and "\<not> c < 0x20"
  using assms
  by (auto simp add: is_high_surrogate_def is_low_surrogate_def dquote_def bslash_def
      word_le_nat_alt word_less_nat_alt)

lemma parse_chars_quote_chars:
  "parse_chars (quote_chars s @ dquote # r) = Some (s, r)"
proof (induction "length s" arbitrary: s rule: less_induct)
  case less
  show ?case
  proof (cases s)
    case Nil
    then show ?thesis by simp
  next
    case (Cons c cs)
    have IH: "parse_chars (quote_chars t @ dquote # r) = Some (t, r)" if "length t < length s" for t
      using less that by simp
    have tail: "parse_chars (quote_chars cs @ dquote # r) = Some (cs, r)"
      by (rule IH) (simp add: Cons)
    consider (esc) e where "e \<noteq> 117" "unescape e = Some c"
        "quote_chars (c # cs) = bslash # e # quote_chars cs"
      | (uni) "quote_chars (c # cs) = unicode_escape c @ quote_chars cs"
      | (pair) d ds where "cs = d # ds" "is_high_surrogate c" "is_low_surrogate d"
        "quote_chars (c # cs) = c # d # quote_chars ds"
      | (lit) "c \<noteq> dquote" "c \<noteq> bslash" "\<not> c < 0x20"
        "quote_chars (c # cs) = c # quote_chars cs"
    proof -
      consider "c = 0x08" | "c = 0x09" | "c = 0x0A" | "c = 0x0C" | "c = 0x0D" | "c = dquote"
        | "c = bslash"
        | "c \<noteq> 0x08" "c \<noteq> 0x09" "c \<noteq> 0x0A" "c \<noteq> 0x0C" "c \<noteq> 0x0D" "c \<noteq> dquote"
          "c \<noteq> bslash"
        by blast
      then show ?thesis
      proof cases
        case 1
        then show ?thesis
          by (intro esc [of 98]) (simp_all add: unescape_def dquote_def bslash_def)
      next
        case 2
        then show ?thesis
          by (intro esc [of 116]) (simp_all add: unescape_def dquote_def bslash_def)
      next
        case 3
        then show ?thesis
          by (intro esc [of 110]) (simp_all add: unescape_def dquote_def bslash_def)
      next
        case 4
        then show ?thesis
          by (intro esc [of 102]) (simp_all add: unescape_def dquote_def bslash_def)
      next
        case 5
        then show ?thesis
          by (intro esc [of 114]) (simp_all add: unescape_def dquote_def bslash_def)
      next
        case 6
        then show ?thesis
          by (intro esc [of dquote]) (simp_all add: unescape_def dquote_def bslash_def)
      next
        case 7
        then show ?thesis
          by (intro esc [of bslash]) (simp_all add: unescape_def dquote_def bslash_def)
      next
        case 8
        note plain = this
        show ?thesis
        proof (cases "c < 0x20")
          case True
          with plain show ?thesis
            by (intro uni) simp
        next
          case False
          note ctl = this
          show ?thesis
          proof (cases "is_high_surrogate c")
            case True
            note high = this
            show ?thesis
            proof (cases cs)
              case Nil
              with plain ctl high show ?thesis
                by (intro uni) simp
            next
              case (Cons d ds)
              show ?thesis
              proof (cases "is_low_surrogate d")
                case True
                with plain ctl high Cons show ?thesis
                  by (intro pair [of d ds]) simp_all
              next
                case False
                with plain ctl high Cons show ?thesis
                  by (intro uni) simp
              qed
            qed
          next
            case False
            note nothigh = this
            show ?thesis
            proof (cases "is_low_surrogate c")
              case True
              with plain ctl nothigh show ?thesis
                by (intro uni) simp
            next
              case False
              with plain ctl nothigh show ?thesis
                by (intro lit) simp_all
            qed
          qed
        qed
      qed
    qed
    then show ?thesis
    proof cases
      case esc
      then show ?thesis
        using parse_chars_escape [OF esc(2,1), of "quote_chars cs @ dquote # r"]
        by (simp add: Cons tail cons_to_def)
    next
      case uni
      then show ?thesis
        using parse_chars_unicode [of c "quote_chars cs @ dquote # r"]
        by (simp add: Cons tail cons_to_def)
    next
      case pair
      have "parse_chars (quote_chars ds @ dquote # r) = Some (ds, r)"
        by (rule IH) (simp add: Cons pair(1))
      moreover note surrogate_literal [of c] surrogate_literal [of d]
      ultimately show ?thesis
        using pair
        by (simp add: Cons cons_to_def del: parse_chars.simps quote_chars.simps)
          (simp add: parse_chars_literal cons_to_def del: quote_chars.simps)
    next
      case lit
      then show ?thesis
        using parse_chars_literal [OF lit(1-3), of "quote_chars cs @ dquote # r"]
        by (simp add: Cons tail cons_to_def del: parse_chars.simps quote_chars.simps)
    qed
  qed
qed

section \<open>Values: printing and reading back\<close>

lemma skip_ws_ws: "list_all is_ws pre \<Longrightarrow> skip_ws (pre @ s) = skip_ws s"
  by (induction pre) (simp_all add: skip_ws_def)

lemma skip_ws_Cons: "\<not> is_ws c \<Longrightarrow> skip_ws (c # s) = c # s"
  by (simp add: skip_ws_def)

lemma skip_ws_starts_value: "starts_value t \<Longrightarrow> skip_ws (t @ s) = t @ s"
  by (cases t) (simp_all add: starts_value_def skip_ws_def)

lemma parse_value_ws:
  assumes "list_all is_ws pre"
  shows "parse_value n (pre @ s) = parse_value n s"
  by (cases n) (simp_all add: skip_ws_ws [OF assms])

lemma parse_members_ws:
  assumes "list_all is_ws pre"
  shows "parse_members n acc (pre @ s) = parse_members n acc s"
  by (cases n) (simp_all add: skip_ws_ws [OF assms])

lemma parse_elements_ws:
  assumes "list_all is_ws pre"
  shows "parse_elements n acc (pre @ s) = parse_elements n acc s"
  by (cases n) (simp_all add: parse_value_ws [OF assms])

lemma delimited_number_end: "delimited r \<Longrightarrow> number_end r"
  by (cases r) (auto simp add: delimited_def number_end_def is_ws_def is_digit_def)

lemma is_ws_chars [simp]:
  "\<not> is_ws 110" "\<not> is_ws 116" "\<not> is_ws 102" "\<not> is_ws 34" "\<not> is_ws 91" "\<not> is_ws 123"
  "\<not> is_ws 44" "\<not> is_ws 93" "\<not> is_ws 125" "\<not> is_ws 58" "\<not> is_ws 45" "is_ws 32" "is_ws 10"
  by (simp_all add: is_ws_def)

lemma is_digit_not_ws: "is_digit c \<Longrightarrow> \<not> is_ws c"
  by (auto simp add: is_digit_def is_ws_def)

lemma is_digit_not_special:
  assumes "is_digit c"
  shows "c \<noteq> 123" "c \<noteq> 91" "c \<noteq> 34" "c \<noteq> 116" "c \<noteq> 102" "c \<noteq> 110" "c \<noteq> 93" "c \<noteq> 125"
  using assms by (auto simp add: is_digit_def)

lemma parse_value_null:
  "parse_value (Suc n) (js ''null'' @ r) = Some (JNull, r)"
  by (simp add: js_def skip_ws_Cons parse_literal_def strip_prefix_def dquote_def)

lemma parse_value_true:
  "parse_value (Suc n) (js ''true'' @ r) = Some (JBool True, r)"
  by (simp add: js_def skip_ws_Cons parse_literal_def strip_prefix_def dquote_def)

lemma parse_value_false:
  "parse_value (Suc n) (js ''false'' @ r) = Some (JBool False, r)"
  by (simp add: js_def skip_ws_Cons parse_literal_def strip_prefix_def dquote_def)

lemma parse_value_string:
  "parse_value (Suc n) (QuoteJSONString s @ r) = Some (JString s, r)"
  by (simp add: QuoteJSONString_def skip_ws_Cons dquote_def
      parse_chars_quote_chars [unfolded dquote_def])

lemma parse_value_number:
  assumes "is_double m p" and "delimited r"
  shows "parse_value (Suc n) (Number_toString (Finite m p) @ r) = Some (JNumber (Finite m p), r)"
proof -
  from Number_toString_first [OF assms(1)] obtain c cs
    where t: "Number_toString (Finite m p) = c # cs" and c: "is_digit c \<or> c = 45"
    by blast
  from c have ws: "\<not> is_ws c"
    using is_digit_not_ws by auto
  from c have ne: "c \<noteq> 123" "c \<noteq> 91" "c \<noteq> 34" "c \<noteq> 116" "c \<noteq> 102" "c \<noteq> 110"
    by (auto simp add: is_digit_def)
  have "parse_number (c # cs @ r) = Some (Finite m p, r)"
    using parse_number_toString [OF assms(1) delimited_number_end [OF assms(2)]]
    unfolding t by simp
  then show ?thesis
    unfolding t using ws ne by (simp add: skip_ws_Cons dquote_def)
qed

lemma wrap_Nil: "wrap gap indent left right [] = left @ right"
  by simp

lemma wrap_compact: "partial \<noteq> [] \<Longrightarrow> wrap [] indent left right partial = left @ join (js '','') partial @ right"
  by simp

lemma wrap_indented:
  "partial \<noteq> [] \<Longrightarrow> gap \<noteq> [] \<Longrightarrow>
    wrap gap indent left right partial =
      left @ (newline # indent @ gap) @ join (cu CHR '','' # newline # indent @ gap) partial
        @ (newline # indent) @ right"
  by (simp add: js_def)

declare wrap.simps [simp del]

lemma starts_value_serialize:
  assumes "well_formed v"
  shows "starts_value (serialize gap indent v)"
proof (cases v)
  case (JNumber x)
  show ?thesis
  proof (cases x)
    case (Finite m p)
    with assms JNumber have "is_double m p"
      by simp
    from Number_toString_first [OF this] obtain c cs
      where t: "Number_toString (Finite m p) = c # cs" and c: "is_digit c \<or> c = 45"
      by blast
    from c have "\<not> is_ws c" "c \<noteq> 93" "c \<noteq> 125"
      by (auto simp add: is_digit_def is_ws_def)
    then show ?thesis
      unfolding JNumber Finite serialize.simps number.case t by (simp add: starts_value_def)
  qed (simp_all add: JNumber starts_value_def js_def)
next
  case (JArray vs)
  show ?thesis
  proof (cases "vs = []")
    case True
    then show ?thesis
      by (simp add: JArray wrap_Nil starts_value_def js_def)
  next
    case False
    then show ?thesis
      by (cases "gap = []") (simp_all add: JArray wrap_compact wrap_indented starts_value_def js_def)
  qed
next
  case (JObject kvs)
  show ?thesis
  proof (cases "kvs = []")
    case True
    then show ?thesis
      by (simp add: JObject wrap_Nil starts_value_def js_def)
  next
    case False
    then show ?thesis
      by (cases "gap = []") (simp_all add: JObject wrap_compact wrap_indented starts_value_def js_def)
  qed
qed (simp_all add: starts_value_def js_def QuoteJSONString_def dquote_def)

lemma delimited_simps [simp]:
  "delimited (44 # s)" "delimited (93 # s)" "delimited (125 # s)" "delimited (newline # s)"
  "delimited []"
  by (simp_all add: delimited_def newline_def)

lemma delimited_ws: "list_all is_ws post \<Longrightarrow> delimited s \<Longrightarrow> delimited (post @ s)"
  by (cases post) (simp_all add: delimited_def)

lemma parse_elements_join:
  assumes pre: "list_all is_ws pre" and post: "list_all is_ws post"
    and elem: "\<And>v n r. v \<in> set vs \<Longrightarrow> need v \<le> n \<Longrightarrow> delimited r
      \<Longrightarrow> parse_value n (text v @ r) = Some (v, r)"
    and ne: "vs \<noteq> []"
    and fuel: "sum_list (map (\<lambda>v. Suc (need v)) vs) \<le> n"
  shows "parse_elements n acc (pre @ join (44 # pre) (map text vs) @ post @ 93 # r)
    = Some (JArray (acc @ vs), r)"
  using elem ne fuel
proof (induction vs arbitrary: acc n)
  case Nil
  then show ?case by simp
next
  case (Cons v vs)
  from Cons.prems(3) obtain n' where n: "n = Suc n'" and n': "need v \<le> n'"
      "sum_list (map (\<lambda>v. Suc (need v)) vs) \<le> n'"
    by (cases n) auto
  show ?case
  proof (cases vs)
    case Nil
    have "parse_value n' (text v @ post @ 93 # r) = Some (v, post @ 93 # r)"
      using n'(1) post by (intro Cons.prems(1)) (simp_all add: delimited_ws)
    then show ?thesis
      using pre post by (simp add: Nil n parse_value_ws skip_ws_ws skip_ws_Cons)
  next
    case (Cons w ws)
    let ?rest = "pre @ join (44 # pre) (map text vs) @ post @ 93 # r"
    have "parse_value n' (text v @ 44 # ?rest) = Some (v, 44 # ?rest)"
      using n'(1) by (intro Cons.prems(1)) simp_all
    moreover have "parse_elements n' (acc @ [v]) ?rest = Some (JArray ((acc @ [v]) @ vs), r)"
      using n'(2) Cons.prems(1) by (intro Cons.IH) (simp_all add: Cons)
    ultimately show ?thesis
      using pre by (simp add: Cons n parse_value_ws skip_ws_Cons)
  qed
qed

lemma parse_members_member:
  assumes "list_all is_ws sp" and "parse_value n (text v @ t) = Some (v, t)"
  shows "parse_members (Suc n) acc (member_text sp text (k, v) @ t) =
    (case skip_ws t of
       [] \<Rightarrow> None
     | c # r \<Rightarrow>
         if c = 44 then parse_members n (put acc (k, v)) r
         else if c = 125 then Some (JObject (put acc (k, v)), r)
         else None)"
proof -
  have key: "parse_chars (quote_chars k @ 34 # u) = Some (k, u)" for u
    using parse_chars_quote_chars [of k u] by (simp add: dquote_def)
  show ?thesis
    using assms
    by (simp add: member_text_def QuoteJSONString_def dquote_def skip_ws_Cons key parse_value_ws
        put_def split: list.splits)
qed

lemma parse_members_join:
  assumes pre: "list_all is_ws pre" and post: "list_all is_ws post" and sp: "list_all is_ws sp"
    and elem: "\<And>kv n r. kv \<in> set kvs \<Longrightarrow> need (snd kv) \<le> n \<Longrightarrow> delimited r
      \<Longrightarrow> parse_value n (text (snd kv) @ r) = Some (snd kv, r)"
    and ne: "kvs \<noteq> []"
    and fuel: "sum_list (map (\<lambda>kv. Suc (need (snd kv))) kvs) \<le> n"
  shows "parse_members n acc (pre @ join (44 # pre) (map (member_text sp text) kvs) @ post @ 125 # r)
    = Some (JObject (foldl put acc kvs), r)"
  using elem ne fuel
proof (induction kvs arbitrary: acc n)
  case Nil
  then show ?case by simp
next
  case (Cons kv kvs)
  obtain k v where kv: "kv = (k, v)"
    by (cases kv)
  from Cons.prems(3) obtain n' where n: "n = Suc n'" and n': "need v \<le> n'"
      "sum_list (map (\<lambda>kv. Suc (need (snd kv))) kvs) \<le> n'"
    by (cases n) (auto simp add: kv)
  show ?case
  proof (cases "kvs = []")
    case True
    have "parse_value n' (text v @ post @ 125 # r) = Some (v, post @ 125 # r)"
      using n'(1) post Cons.prems(1) [of kv n' "post @ 125 # r"] by (simp add: kv delimited_ws)
    with parse_members_member [of sp n' "text" v "post @ 125 # r" acc k] sp
    have "parse_members (Suc n') acc (member_text sp text (k, v) @ post @ 125 # r)
        = Some (JObject (put acc (k, v)), r)"
      using post by (simp add: skip_ws_ws skip_ws_Cons)
    moreover have "join (44 # pre) (map (member_text sp text) (kv # kvs)) = member_text sp text (k, v)"
      by (simp add: True kv)
    moreover have "foldl put acc (kv # kvs) = put acc (k, v)"
      by (simp add: True kv)
    ultimately show ?thesis
      unfolding n by (simp only: parse_members_ws [OF pre])
  next
    case False
    let ?rest = "pre @ join (44 # pre) (map (member_text sp text) kvs) @ post @ 125 # r"
    have j: "join (44 # pre) (map (member_text sp text) (kv # kvs))
        = member_text sp text (k, v) @ (44 # pre) @ join (44 # pre) (map (member_text sp text) kvs)"
      using False by (cases kvs) (simp_all add: kv)
    have "parse_value n' (text v @ 44 # ?rest) = Some (v, 44 # ?rest)"
      using n'(1) Cons.prems(1) [of kv n' "44 # ?rest"] by (simp add: kv)
    with parse_members_member [of sp n' "text" v "44 # ?rest" acc k] sp
    have "parse_members (Suc n') acc (member_text sp text (k, v) @ 44 # ?rest)
        = parse_members n' (put acc (k, v)) ?rest"
      by (simp add: skip_ws_Cons)
    also have "\<dots> = Some (JObject (foldl put (put acc (k, v)) kvs), r)"
      using n'(2) Cons.prems(1) False by (intro Cons.IH) simp_all
    finally have "parse_members (Suc n') acc (member_text sp text (k, v) @ 44 # ?rest)
        = Some (JObject (foldl put (put acc (k, v)) kvs), r)" .
    moreover have "foldl put acc (kv # kvs) = foldl put (put acc (k, v)) kvs"
      by (simp add: kv)
    ultimately show ?thesis
      unfolding n j by (simp only: parse_members_ws [OF pre] append_Cons append_assoc)
  qed
qed

lemma canonical_keys_appendD:
  assumes "canonical_keys (xs @ y # ys)"
  shows "y \<notin> set xs" and "canonical_keys xs"
    and "is_array_index y \<Longrightarrow> x \<in> set xs \<Longrightarrow> is_array_index x \<and> digits_value x < digits_value y"
  using assms
proof (induction xs)
  case Nil
  {
    case 1 show ?case by simp
  next
    case 2 show ?case by simp
  next
    case 3 then show ?case by simp
  }
next
  case (Cons a xs)
  {
    case 1
    with Cons.IH(1) show ?case by auto
  next
    case 2
    with Cons.IH(2) show ?case by (auto split: if_splits)
  next
    case 3
    with Cons.IH(3) show ?case by (auto split: if_splits)
  }
qed

lemma insert_index_end:
  assumes "\<And>kv. kv \<in> set acc \<Longrightarrow> is_array_index (fst kv) \<and> digits_value (fst kv) < digits_value k"
  shows "insert_index k v acc = acc @ [(k, v)]"
  using assms by (induction acc) simp_all

lemma put_end:
  assumes "canonical_keys (map fst acc @ fst kv # ks)"
  shows "put acc kv = acc @ [kv]"
proof -
  note c = canonical_keys_appendD [OF assms]
  from c(1) have new: "fst kv \<notin> fst ` set acc"
    by simp
  show ?thesis
  proof (cases "is_array_index (fst kv)")
    case True
    have "insert_index (fst kv) (snd kv) acc = acc @ [(fst kv, snd kv)]"
      using c(3) [OF True] by (intro insert_index_end) auto
    with new True show ?thesis
      by (simp add: put_def create_property_def)
  next
    case False
    with new show ?thesis
      by (simp add: put_def create_property_def)
  qed
qed

lemma foldl_put_canonical:
  assumes "canonical_keys (map fst (acc @ kvs))"
  shows "foldl put acc kvs = acc @ kvs"
  using assms
proof (induction kvs arbitrary: acc)
  case Nil
  then show ?case by simp
next
  case (Cons kv kvs)
  then have "put acc kv = acc @ [kv]"
    by (intro put_end [of acc kv "map fst kvs"]) simp
  moreover have "foldl put (acc @ [kv]) kvs = (acc @ [kv]) @ kvs"
    using Cons.prems by (intro Cons.IH) simp
  ultimately show ?case
    by simp
qed

lemma join_Cons: "join sep (x # xs) = x @ (if xs = [] then [] else sep @ join sep xs)"
  by (cases xs) simp_all

lemma length_join:
  "items \<noteq> [] \<Longrightarrow> sum_list (map length items) + length items \<le> Suc (length (join (c # sep) items))"
  by (induction "c # sep" items rule: join.induct) simp_all

lemma length_wrap:
  assumes "items \<noteq> []" and "length left = 1" and "length right = 1"
  shows "Suc (sum_list (map length items) + length items) \<le> length (wrap gap indent left right items)"
proof (cases "gap = []")
  case True
  with assms length_join [OF assms(1), of 44 "[]"] show ?thesis
    by (simp add: wrap_compact js_def)
next
  case False
  with assms length_join [OF assms(1), of 44 "newline # indent @ gap"] show ?thesis
    by (simp add: wrap_indented)
qed

lemma sum_list_Suc: "sum_list (map (\<lambda>x. Suc (f x)) xs) = sum_list (map f xs) + length xs"
  by (induction xs) simp_all

lemma need_le_length:
  "well_formed v \<Longrightarrow> need v \<le> length (serialize gap indent v)"
proof (induction v arbitrary: indent)
  case (JNumber x)
  then show ?case
    using starts_value_serialize [of "JNumber x" gap indent]
    by (cases "serialize gap indent (JNumber x)") (simp_all add: starts_value_def)
next
  case (JArray vs)
  show ?case
  proof (cases "vs = []")
    case True
    then show ?thesis by (simp add: wrap_Nil js_def)
  next
    case False
    let ?items = "map (serialize gap (indent @ gap)) vs"
    have "sum_list (map need vs) \<le> sum_list (map length ?items)"
      unfolding map_map comp_def using JArray by (intro sum_list_mono) simp
    moreover have "Suc (sum_list (map length ?items) + length ?items)
        \<le> length (wrap gap indent (js ''['') (js '']'') ?items)"
      using False by (intro length_wrap) (simp_all add: js_def)
    ultimately show ?thesis
      by (simp add: sum_list_Suc)
  qed
next
  case (JObject kvs)
  show ?case
  proof (cases "kvs = []")
    case True
    then show ?thesis by (simp add: wrap_Nil js_def)
  next
    case False
    let ?f = "\<lambda>kv. QuoteJSONString (fst kv) @ js '':'' @ (if gap = [] then [] else js '' '')
               @ serialize gap (indent @ gap) (snd kv)"
    let ?items = "map ?f kvs"
    have "need (snd kv) \<le> length (?f kv)" if "kv \<in> set kvs" for kv
    proof -
      have "snd kv \<in> Basic_BNFs.snds kv"
        by (cases kv) simp
      with JObject that have "need (snd kv) \<le> length (serialize gap (indent @ gap) (snd kv))"
        by (intro JObject.IH [of kv]) auto
      then show ?thesis by simp
    qed
    then have "sum_list (map (\<lambda>kv. need (snd kv)) kvs) \<le> sum_list (map length ?items)"
      unfolding map_map comp_def by (intro sum_list_mono) simp
    moreover have "Suc (sum_list (map length ?items) + length ?items)
        \<le> length (wrap gap indent (js ''{'') (js ''}'') ?items)"
      using False by (intro length_wrap) (simp_all add: js_def)
    ultimately show ?thesis
      by (simp add: sum_list_Suc)
  qed
qed (simp_all add: js_def QuoteJSONString_def)

lemma parse_value_array_open:
  assumes "skip_ws X = d # r'" and "d \<noteq> 93"
  shows "parse_value (Suc n) (91 # X) = parse_elements n [] X"
  using assms by (simp add: skip_ws_Cons dquote_def)

lemma parse_value_object_open:
  assumes "skip_ws X = d # r'" and "d \<noteq> 125"
  shows "parse_value (Suc n) (123 # X) = parse_members n [] X"
  using assms by (simp add: skip_ws_Cons dquote_def)

lemma skip_ws_items:
  assumes "list_all is_ws pre" and "starts_value t"
  shows "\<exists>d r'. skip_ws (pre @ join sep (t # ts) @ rest) = d # r' \<and> d \<noteq> 93 \<and> d \<noteq> 125"
proof -
  from assms(2) obtain c cs where t: "t = c # cs" and c: "\<not> is_ws c" "c \<noteq> 93" "c \<noteq> 125"
    by (cases t) (simp_all add: starts_value_def)
  have "skip_ws (pre @ join sep (t # ts) @ rest) = skip_ws (join sep (t # ts) @ rest)"
    by (rule skip_ws_ws [OF assms(1)])
  also have "\<dots> = c # cs @ (if ts = [] then [] else sep @ join sep ts) @ rest"
    using c(1) by (simp add: join_Cons t skip_ws_Cons)
  finally show ?thesis
    using c by blast
qed

lemma parse_array:
  assumes pre: "list_all is_ws pre" and post: "list_all is_ws post"
    and elem: "\<And>v n r. v \<in> set vs \<Longrightarrow> need v \<le> n \<Longrightarrow> delimited r
      \<Longrightarrow> parse_value n (text v @ r) = Some (v, r)"
    and start: "\<And>v. v \<in> set vs \<Longrightarrow> starts_value (text v)"
    and ne: "vs \<noteq> []"
    and fuel: "need (JArray vs) \<le> n"
  shows "parse_value n (91 # pre @ join (44 # pre) (map text vs) @ post @ 93 # r)
    = Some (JArray vs, r)"
proof -
  from fuel obtain n' where n: "n = Suc n'" and n': "sum_list (map (\<lambda>v. Suc (need v)) vs) \<le> n'"
    by (cases n) auto
  from ne obtain v vs' where vs: "vs = v # vs'"
    by (cases vs) auto
  let ?X = "pre @ join (44 # pre) (map text vs) @ post @ 93 # r"
  from skip_ws_items [OF pre start [of v], of "44 # pre" "map text vs'" "post @ 93 # r"]
  obtain d r' where "skip_ws ?X = d # r'" "d \<noteq> 93"
    by (auto simp add: vs)
  from parse_value_array_open [OF this]
  have "parse_value (Suc n') (91 # ?X) = parse_elements n' [] ?X" .
  also have "\<dots> = Some (JArray ([] @ vs), r)"
    using pre post elem ne n' by (rule parse_elements_join)
  finally show ?thesis
    by (simp add: n)
qed

lemma parse_object:
  assumes pre: "list_all is_ws pre" and post: "list_all is_ws post" and sp: "list_all is_ws sp"
    and elem: "\<And>kv n r. kv \<in> set kvs \<Longrightarrow> need (snd kv) \<le> n \<Longrightarrow> delimited r
      \<Longrightarrow> parse_value n (text (snd kv) @ r) = Some (snd kv, r)"
    and canon: "canonical_keys (map fst kvs)"
    and ne: "kvs \<noteq> []"
    and fuel: "need (JObject kvs) \<le> n"
  shows "parse_value n (123 # pre @ join (44 # pre) (map (member_text sp text) kvs) @ post @ 125 # r)
    = Some (JObject kvs, r)"
proof -
  from fuel obtain n' where n: "n = Suc n'"
    and n': "sum_list (map (\<lambda>kv. Suc (need (snd kv))) kvs) \<le> n'"
    by (cases n) auto
  from ne obtain kv kvs' where kvs: "kvs = kv # kvs'"
    by (cases kvs) auto
  let ?X = "pre @ join (44 # pre) (map (member_text sp text) kvs) @ post @ 125 # r"
  have "starts_value (member_text sp text kv)"
    by (simp add: member_text_def QuoteJSONString_def starts_value_def dquote_def)
  from skip_ws_items [OF pre this, of "44 # pre" "map (member_text sp text) kvs'" "post @ 125 # r"]
  obtain d r' where "skip_ws ?X = d # r'" "d \<noteq> 125"
    by (auto simp add: kvs)
  from parse_value_object_open [OF this]
  have "parse_value (Suc n') (123 # ?X) = parse_members n' [] ?X" .
  also have "\<dots> = Some (JObject (foldl put [] kvs), r)"
    using pre post sp elem ne n' by (rule parse_members_join)
  also have "foldl put [] kvs = [] @ kvs"
    using canon by (intro foldl_put_canonical) simp
  finally show ?thesis
    by (simp add: n)
qed

lemma is_ws_newline: "is_ws newline"
  by (simp add: newline_def)

lemma parse_value_serialize:
  assumes gap: "list_all is_ws gap"
  shows "well_formed v \<Longrightarrow> numbers_finite v \<Longrightarrow> list_all is_ws indent \<Longrightarrow> delimited r
    \<Longrightarrow> need v \<le> n \<Longrightarrow> parse_value n (serialize gap indent v @ r) = Some (v, r)"
proof (induction v arbitrary: indent r n)
  case JNull
  then show ?case
    by (cases n) (simp_all add: parse_value_null del: parse_value.simps)
next
  case (JBool b)
  then show ?case
    by (cases n; cases b) (simp_all add: parse_value_true parse_value_false del: parse_value.simps)
next
  case (JNumber x)
  then obtain m p where x: "x = Finite m p" and d: "is_double m p"
    by (cases x) simp_all
  from JNumber(5) obtain n' where n: "n = Suc n'"
    by (cases n) auto
  show ?case
    unfolding x n serialize.simps number.case
    by (rule parse_value_number [OF d JNumber(4)])
next
  case (JString s)
  then show ?case
    by (cases n) (simp_all add: parse_value_string del: parse_value.simps)
next
  case (JArray vs)
  let ?text = "serialize gap (indent @ gap)"
  have ind': "list_all is_ws (indent @ gap)"
    using gap JArray.prems(3) by simp
  have elem: "parse_value n (?text v @ r) = Some (v, r)"
    if "v \<in> set vs" "need v \<le> n" "delimited r" for v n r
    using that JArray.prems(1,2) ind' by (intro JArray.IH) simp_all
  have start: "starts_value (?text v)" if "v \<in> set vs" for v
    using that JArray.prems(1) by (intro starts_value_serialize) simp
  show ?case
  proof (cases "vs = []")
    case True
    from JArray.prems(5) obtain n' where "n = Suc n'"
      by (cases n) auto
    with True show ?thesis
      by (simp add: wrap_Nil js_def skip_ws_Cons dquote_def)
  next
    case False
    show ?thesis
    proof (cases "gap = []")
      case True
      have "parse_value n (91 # [] @ join (44 # []) (map ?text vs) @ [] @ 93 # r) = Some (JArray vs, r)"
        using elem start False JArray.prems(5) by (intro parse_array) simp_all
      with True False show ?thesis
        by (simp add: wrap_compact js_def)
    next
      case gapne: False
      let ?pre = "newline # indent @ gap" and ?post = "newline # indent"
      have "parse_value n (91 # ?pre @ join (44 # ?pre) (map ?text vs) @ ?post @ 93 # r)
          = Some (JArray vs, r)"
        using elem start False JArray.prems(3,5) ind'
        by (intro parse_array) (simp_all add: is_ws_newline)
      with gapne False show ?thesis
        by (simp add: wrap_indented js_def)
    qed
  qed
next
  case (JObject kvs)
  let ?text = "serialize gap (indent @ gap)"
  let ?sp = "if gap = [] then [] else js '' ''"
  have ind': "list_all is_ws (indent @ gap)"
    using gap JObject.prems(3) by simp
  have sp: "list_all is_ws ?sp"
    by (simp add: js_def)
  have elem: "parse_value n (?text (snd kv) @ r) = Some (snd kv, r)"
    if "kv \<in> set kvs" "need (snd kv) \<le> n" "delimited r" for kv n r
  proof -
    have "snd kv \<in> Basic_BNFs.snds kv"
      by (cases kv) simp
    with that JObject.prems(1,2) ind' show ?thesis
      by (intro JObject.IH [of kv]) auto
  qed
  have items: "map (\<lambda>kv. QuoteJSONString (fst kv) @ js '':'' @ ?sp @ ?text (snd kv)) kvs
      = map (member_text ?sp ?text) kvs"
    by (simp add: member_text_def js_def)
  from JObject.prems(1) have canon: "canonical_keys (map fst kvs)"
    by simp
  show ?case
  proof (cases "kvs = []")
    case True
    from JObject.prems(5) obtain n' where "n = Suc n'"
      by (cases n) auto
    with True show ?thesis
      by (simp add: wrap_Nil js_def skip_ws_Cons dquote_def)
  next
    case False
    show ?thesis
    proof (cases "gap = []")
      case True
      have "parse_value n (123 # [] @ join (44 # []) (map (member_text ?sp ?text) kvs) @ [] @ 125 # r)
          = Some (JObject kvs, r)"
        using sp elem canon False JObject.prems(5) by (intro parse_object) simp_all
      with True False show ?thesis
        unfolding serialize.simps items by (simp add: wrap_compact js_def)
    next
      case gapne: False
      let ?pre = "newline # indent @ gap" and ?post = "newline # indent"
      have "parse_value n (123 # ?pre @ join (44 # ?pre) (map (member_text ?sp ?text) kvs)
            @ ?post @ 125 # r) = Some (JObject kvs, r)"
        using sp elem canon False JObject.prems(3,5) ind'
        by (intro parse_object) (simp_all add: is_ws_newline)
      with gapne False show ?thesis
        unfolding serialize.simps items by (simp add: wrap_indented js_def)
    qed
  qed
qed

section \<open>What the parser returns is well formed\<close>

lemma digit_val_range: "is_digit c \<Longrightarrow> 0 \<le> digit_val c \<and> digit_val c < 10"
  by (simp add: is_digit_iff digit_val_def)

lemma digit_char_digit_val: "is_digit c \<Longrightarrow> digit_char (digit_val c) = c"
  by (simp add: digit_char_def digit_val_def)

lemma digits_of_digits_value:
  assumes "ds \<noteq> []" and "list_all is_digit ds" and "hd ds \<noteq> 48"
  shows "digits_of (digits_value ds) = ds \<and> 0 < digits_value ds"
  using assms
proof (induction ds rule: rev_induct)
  case Nil
  then show ?case by simp
next
  case (snoc c xs)
  from snoc.prems(2) have c: "is_digit c" and xs: "list_all is_digit xs"
    by simp_all
  note r = digit_val_range [OF c]
  show ?case
  proof (cases "xs = []")
    case True
    with snoc.prems(3) have "c \<noteq> 48"
      by simp
    with c have "digit_val c \<noteq> 0"
      using digit_char_digit_val [OF c] by (auto simp add: digit_char_zero)
    with r have pos: "0 < digit_val c"
      by simp
    have "digits_of (digit_val c) = digits_of (digit_val c div 10) @ [digit_char (digit_val c mod 10)]"
      using pos by (rule digits_of_step)
    also have "\<dots> = [c]"
      using r by (simp add: digits_of_nonpos digit_char_digit_val [OF c])
    finally show ?thesis
      using pos by (simp add: True digits_value_def)
  next
    case False
    with snoc.prems(3) have "hd xs \<noteq> 48"
      by simp
    with snoc.IH False xs have IH: "digits_of (digits_value xs) = xs" "0 < digits_value xs"
      by simp_all
    let ?n = "10 * digits_value xs + digit_val c"
    have pos: "0 < ?n"
      using IH(2) r by linarith
    have dm: "?n div 10 = digits_value xs" "?n mod 10 = digit_val c"
      using r by simp_all
    have "digits_of ?n = digits_of (?n div 10) @ [digit_char (?n mod 10)]"
      using pos by (rule digits_of_step)
    then have "digits_of ?n = xs @ [c]"
      by (simp only: dm IH(1) digit_char_digit_val [OF c])
    then show ?thesis
      using pos by simp
  qed
qed

lemma array_index_decimal:
  assumes "is_array_index k"
  shows "k = decimal (digits_value k)"
proof (cases "hd k = 48")
  case True
  with assms obtain "k = [48]"
    by (cases k) (auto simp add: is_array_index_def)
  then show ?thesis
    by (simp add: decimal_def js_def digits_value_def digit_val_def)
next
  case False
  with assms digits_of_digits_value [of k] show ?thesis
    by (simp add: is_array_index_def decimal_def)
qed

lemma array_index_inj:
  assumes "is_array_index k" and "is_array_index k'" and "digits_value k = digits_value k'"
  shows "k = k'"
  using array_index_decimal [OF assms(1)] array_index_decimal [OF assms(2)] assms(3) by simp

lemma map_fst_replace_value [simp]: "map fst (replace_value k v kvs) = map fst kvs"
  by (induction kvs) simp_all

lemma set_replace_value: "set (replace_value k v kvs) \<subseteq> insert (k, v) (set kvs)"
  by (induction kvs) auto

lemma set_insert_index [simp]: "set (insert_index k v kvs) = insert (k, v) (set kvs)"
  by (induction kvs) auto

lemma canonical_keys_index_Cons:
  "is_array_index k \<Longrightarrow> canonical_keys (k # ks) \<longleftrightarrow>
    k \<notin> set ks \<and> canonical_keys ks
      \<and> (\<forall>k' \<in> set ks. is_array_index k' \<longrightarrow> digits_value k < digits_value k')"
  by simp

lemma canonical_keys_insert_index:
  assumes "canonical_keys (map fst kvs)" and "is_array_index k" and "k \<notin> fst ` set kvs"
  shows "canonical_keys (map fst (insert_index k v kvs))"
  using assms
proof (induction kvs)
  case Nil
  then show ?case by simp
next
  case (Cons kv kvs)
  from Cons.prems have IH: "canonical_keys (map fst (insert_index k v kvs))"
    by (intro Cons.IH) (auto split: if_splits)
  show ?case
  proof (cases "is_array_index (fst kv) \<and> digits_value (fst kv) < digits_value k")
    case True
    with Cons.prems IH show ?thesis
      by (auto simp add: image_iff)
  next
    case False
    have "digits_value k < digits_value k'" if "k' \<in> set (map fst (kv # kvs))" "is_array_index k'" for k'
    proof (cases "is_array_index (fst kv)")
      case True
      with False have "digits_value k \<le> digits_value (fst kv)"
        by simp
      moreover have "digits_value k \<noteq> digits_value (fst kv)"
        using array_index_inj [OF Cons.prems(2) True] Cons.prems(3) by auto
      ultimately have lt: "digits_value k < digits_value (fst kv)"
        by simp
      show ?thesis
      proof (cases "k' = fst kv")
        case True
        with lt show ?thesis by simp
      next
        case False
        with that(1) have "k' \<in> set (map fst kvs)"
          by simp
        with Cons.prems(1) True that(2) have "digits_value (fst kv) < digits_value k'"
          by auto
        with lt show ?thesis by simp
      qed
    next
      case False
      with Cons.prems(1) that show ?thesis
        by auto
    qed
    then have b: "\<forall>k' \<in> set (map fst (kv # kvs)). is_array_index k' \<longrightarrow> digits_value k < digits_value k'"
      by blast
    have a: "k \<notin> set (map fst (kv # kvs))"
      using Cons.prems(3) by simp
    have "canonical_keys (k # map fst (kv # kvs))"
      unfolding canonical_keys_index_Cons [OF Cons.prems(2)]
      using a b Cons.prems(1) by (intro conjI)
    moreover have "insert_index k v (kv # kvs) = (k, v) # kv # kvs"
      by (simp only: insert_index.simps False if_False)
    ultimately show ?thesis
      by (simp only: list.map fst_conv)
  qed
qed

lemma canonical_keys_snoc:
  assumes "canonical_keys ks" and "k \<notin> set ks" and "\<not> is_array_index k"
  shows "canonical_keys (ks @ [k])"
  using assms by (induction ks) auto

lemma canonical_keys_create_property:
  assumes "canonical_keys (map fst kvs)"
  shows "canonical_keys (map fst (create_property kvs k v))"
proof -
  consider "k \<in> fst ` set kvs" | "k \<notin> fst ` set kvs" "is_array_index k"
    | "k \<notin> fst ` set kvs" "\<not> is_array_index k"
    by blast
  then show ?thesis
  proof cases
    case 1
    with assms show ?thesis
      by (simp add: create_property_def)
  next
    case 2
    with canonical_keys_insert_index [OF assms 2(2,1), of v] show ?thesis
      by (simp add: create_property_def)
  next
    case 3
    with canonical_keys_snoc [OF assms, of k] show ?thesis
      by (simp add: create_property_def)
  qed
qed

lemma set_create_property: "set (create_property kvs k v) \<subseteq> insert (k, v) (set kvs)"
  using set_replace_value [of k v kvs] by (auto simp add: create_property_def)

lemma well_formed_create_property:
  assumes "well_formed (JObject kvs)" and "well_formed v"
  shows "well_formed (JObject (create_property kvs k v))"
proof -
  have "well_formed (snd kv)" if "kv \<in> set (create_property kvs k v)" for kv
    using that set_create_property [of kvs k v] assms by auto
  with assms(1) show ?thesis
    by (simp add: canonical_keys_create_property)
qed

lemma snd_scale_10_pos: "0 < snd (scale 10 (D, 1) e)"
  by (simp add: snd_scale_pos)

lemma parse_unsigned_denominator:
  assumes "parse_unsigned s = Some (f, r)"
  shows "0 < snd f"
  using assms
  by (auto simp add: parse_unsigned_def snd_scale_pos split: option.splits)

lemma is_double_negate: "is_double (- m) p \<longleftrightarrow> is_double m p"
  by (simp add: is_double_def)

lemma well_formed_parse_number:
  assumes "parse_number s = Some (x, r)"
  shows "well_formed (JNumber x)"
proof (cases x)
  case (Finite m p)
  from assms obtain f t where pu: "parse_unsigned t = Some (f, r)"
    and x: "x = to_double f \<or> x = negate (to_double f)"
    by (auto simp add: parse_number_def split: list.splits if_splits option.splits)
  note f = parse_unsigned_denominator [OF pu]
  from x show ?thesis
  proof
    assume "x = to_double f"
    with Finite to_double_is_double [OF f, of m p] show ?thesis
      by simp
  next
    assume "x = negate (to_double f)"
    with Finite have "to_double f = Finite (- m) p"
      by (auto simp add: negate_def split: number.splits)
    with to_double_is_double [OF f, of "- m" p] Finite show ?thesis
      by (simp add: is_double_negate)
  qed
qed simp_all

lemma parse_literal_Some: "parse_literal p val s = Some (v, r) \<Longrightarrow> v = val"
  by (simp add: parse_literal_def split: option.splits)

lemma parse_well_formed_aux:
  "(\<forall>s v r. parse_value n s = Some (v, r) \<longrightarrow> well_formed v)
   \<and> (\<forall>acc s v r. (\<forall>a \<in> set acc. well_formed a) \<longrightarrow> parse_elements n acc s = Some (v, r)
        \<longrightarrow> well_formed v)
   \<and> (\<forall>acc s v r. well_formed (JObject acc) \<longrightarrow> parse_members n acc s = Some (v, r)
        \<longrightarrow> well_formed v)"
proof (induction n)
  case 0
  show ?case by simp
next
  case (Suc n)
  then have IH1: "\<And>s v r. parse_value n s = Some (v, r) \<Longrightarrow> well_formed v"
    and IH2: "\<And>acc s v r. (\<forall>a \<in> set acc. well_formed a) \<Longrightarrow> parse_elements n acc s = Some (v, r)
        \<Longrightarrow> well_formed v"
    and IH3: "\<And>acc s v r. well_formed (JObject acc) \<Longrightarrow> parse_members n acc s = Some (v, r)
        \<Longrightarrow> well_formed v"
    by blast+
  have 1: "well_formed v" if "parse_value (Suc n) s = Some (v, r)" for s v r
  proof (cases "skip_ws s")
    case Nil
    with that show ?thesis by simp
  next
    case (Cons c t)
    from that Cons show ?thesis
      using IH2 [of "[]"] IH3 [of "[]"]
      by (auto split: list.splits if_splits option.splits
          dest!: parse_literal_Some well_formed_parse_number)
  qed
  have 2: "well_formed v"
    if "\<forall>a \<in> set acc. well_formed a" "parse_elements (Suc n) acc s = Some (v, r)" for acc s v r
  proof -
    from that(2) obtain v1 r1 where p: "parse_value n s = Some (v1, r1)"
      by (auto split: option.splits)
    with that(1) IH1 have acc': "\<forall>a \<in> set (acc @ [v1]). well_formed a"
      by auto
    from that(2) p consider t where "parse_elements n (acc @ [v1]) t = Some (v, r)"
      | "v = JArray (acc @ [v1])"
      by (auto split: list.splits if_splits)
    then show ?thesis
    proof cases
      case 1
      with IH2 [OF acc'] show ?thesis by blast
    next
      case 2
      with acc' show ?thesis by simp
    qed
  qed
  have 3: "well_formed v"
    if "well_formed (JObject acc)" "parse_members (Suc n) acc s = Some (v, r)" for acc s v r
  proof -
    from that(2) have "\<exists>k v1 t r1. parse_value n t = Some (v1, r1)
        \<and> ((\<exists>u. parse_members n (create_property acc k v1) u = Some (v, r))
          \<or> v = JObject (create_property acc k v1))"
      by (simp split: list.splits if_splits option.splits prod.splits) blast+
    then obtain k v1 t r1 where p: "parse_value n t = Some (v1, r1)"
      and res: "(\<exists>u. parse_members n (create_property acc k v1) u = Some (v, r))
        \<or> v = JObject (create_property acc k v1)"
      by blast
    from p IH1 have "well_formed v1"
      by blast
    from well_formed_create_property [OF that(1) this]
    have wf: "well_formed (JObject (create_property acc k v1))" .
    from res show ?thesis
    proof
      assume "\<exists>u. parse_members n (create_property acc k v1) u = Some (v, r)"
      with IH3 [OF wf] show ?thesis by blast
    next
      assume "v = JObject (create_property acc k v1)"
      with wf show ?thesis by simp
    qed
  qed
  from 1 2 3 show ?case
    by blast
qed

lemma parse_value_well_formed: "parse_value n s = Some (v, r) \<Longrightarrow> well_formed v"
  using parse_well_formed_aux [of n] by blast

lemma JSON_parse_well_formed: "JSON_parse text = Some v \<Longrightarrow> well_formed v"
  by (auto simp add: JSON_parse_def split: option.splits if_splits dest: parse_value_well_formed)

section \<open>The round trip\<close>

lemma list_all_is_ws_gap: "list_all is_ws (replicate n (cu CHR '' ''))"
  by (induction n) simp_all

lemma parse_stringify:
  assumes "well_formed v" and "numbers_finite v"
  shows "JSON_parse (JSON_stringify v space) = Some v"
proof -
  let ?gap = "replicate (min 10 space) (cu CHR '' '')"
  let ?text = "serialize ?gap [] v"
  have "parse_value (length ?text) (?text @ []) = Some (v, [])"
    using assms need_le_length [OF assms(1), of ?gap "[]"]
    by (intro parse_value_serialize list_all_is_ws_gap) simp_all
  then show ?thesis
    by (simp add: JSON_parse_def JSON_stringify_def skip_ws_def)
qed

lemma JSON_round_trip:
  assumes "JSON_parse text = Some v" and "numbers_finite v"
  shows "JSON_parse (JSON_stringify v space) = JSON_parse text"
  using parse_stringify [OF JSON_parse_well_formed [OF assms(1)] assms(2)] assms(1) by simp

lemma parse_overflow:
  "JSON_parse (js ''{\"x\":1e309}'') = Some (JObject [(js ''x'', JNumber PosInfinity)])"
  by code_simp

lemma parse_underflow:
  "JSON_parse (js ''[-2e308]'') = Some (JArray [JNumber NegInfinity])"
  by code_simp

lemma parse_example:
  "JSON_parse (js ''{\"make\":\"X\",\"score\":4.5}'')
    = Some (JObject [(js ''make'', JString (js ''X'')),
        (js ''score'', JNumber (Finite 5066549580791808 (- 50)))])"
  by code_simp

lemma stringify_example0:
  "JSON_stringify (JObject [(js ''make'', JString (js ''X'')),
        (js ''score'', JNumber (Finite 5066549580791808 (- 50)))]) 0
    = js ''{\"make\":\"X\",\"score\":4.5}''"
  by code_simp

section \<open>The handlers, path by path\<close>

lemma stringify_missing_id:
  "JSON_stringify (error_object ''missing id'') 0 = js ''{\"error\":\"missing id\"}''"
  by code_simp

lemma stringify_file_not_found:
  "JSON_stringify (error_object ''file not found'') 0 = js ''{\"error\":\"file not found\"}''"
  by code_simp

lemma stringify_File_not_found:
  "JSON_stringify (error_object ''File not found'') 0 = js ''{\"error\":\"File not found\"}''"
  by code_simp

lemma id_param_get_request [simp]:
  "id_param (get_request query) = searchParams_get query (js ''id'')"
  by (simp add: id_param_def get_request_def)

lemma truthy_simps [simp]:
  "truthy None = False" "truthy (Some s) = (s \<noteq> [])"
  by (simp_all add: truthy_def)

lemma koubei_without_id:
  assumes "\<not> truthy (id_param context)"
  shows "koubei_onRequestGet net context =
    (Inr \<lparr>status = 400, headers = json_headers, body = js ''{\"error\":\"missing id\"}''\<rparr>, [])"
  using assms
  by (simp add: koubei_onRequestGet_def id_param_def Let_def new_Response_def
      stringify_missing_id)

lemma koubei_with_id:
  assumes "truthy (id_param context)"
  shows "koubei_onRequestGet net context =
    (case net (fileUrl_of (id_param context)) of
       Inl e \<Rightarrow> (Inl e, [fileUrl_of (id_param context)])
     | Inr res \<Rightarrow>
         if \<not> ok res then
           (Inr \<lparr>status = 404, headers = json_headers,
                 body = js ''{\"error\":\"file not found\"}''\<rparr>,
            [fileUrl_of (id_param context)])
         else
           (case JSON_parse (body res) of
              None \<Rightarrow> (Inl SyntaxError, [fileUrl_of (id_param context)])
            | Some data \<Rightarrow>
                (Inr \<lparr>status = 200, headers = json_headers, body = JSON_stringify data 0\<rparr>,
                 [fileUrl_of (id_param context)])))"
  using assms
  by (simp add: koubei_onRequestGet_def id_param_def Let_def new_Response_def fetch_def
      json_def stringify_file_not_found split: sum.splits option.splits)

text \<open>The id the lenient variant goes on with.\<close>

lemma part_000_run:
  "part_000_onRequestGet net context =
    (case net (fileUrl_of (or_else (id_param context) (Some (js ''197'')))) of
       Inl e \<Rightarrow> (Inl e, [fileUrl_of (or_else (id_param context) (Some (js ''197'')))])
     | Inr res \<Rightarrow>
         if \<not> ok res then
           (Inr \<lparr>status = 404, headers = json_headers,
                 body = js ''{\"error\":\"File not found\"}''\<rparr>,
            [fileUrl_of (or_else (id_param context) (Some (js ''197'')))])
         else
           (case JSON_parse (body res) of
              None \<Rightarrow>
                (Inl SyntaxError, [fileUrl_of (or_else (id_param context) (Some (js ''197'')))])
            | Some data \<Rightarrow>
                (Inr \<lparr>status = 200, headers = json_headers, body = JSON_stringify data 2\<rparr>,
                 [fileUrl_of (or_else (id_param context) (Some (js ''197'')))])))"
  by (simp add: part_000_onRequestGet_def id_param_def Let_def new_Response_def fetch_def
      json_def stringify_File_not_found split: sum.splits option.splits)

lemma or_else_simps [simp]:
  "or_else None b = b" "or_else (Some []) b = b" "s \<noteq> [] \<Longrightarrow> or_else (Some s) b = Some s"
  by (simp_all add: or_else_def)

lemma or_else_197:
  "\<exists>s. or_else v (Some (js ''197'')) = Some s \<and> s \<noteq> []"
proof (cases v)
  case None
  then show ?thesis
    by (simp add: js_def)
next
  case (Some a)
  then show ?thesis
    by (cases "a = []") (simp_all add: js_def)
qed

lemma fileUrl_of_Some:
  "fileUrl_of (Some s) =
     js ''https://china-auto-dashboard.pages.dev/api/koubei_summary_'' @ s @ js ''.json''"
  by (simp add: fileUrl_of_def ToString_def)

lemma ok_answer [simp]:
  "ok \<lparr>status = st, headers = hs, body = b\<rparr> \<longleftrightarrow> 200 \<le> st \<and> st \<le> 299"
  by (simp add: ok_def)

section \<open>The claims\<close>

text \<open>
  C1. In the strict variant, a request whose query string has no \<open>id\<close> parameter, or an
  empty one, is answered with status 400, the body \<open>{"error":"missing id"}\<close> and the
  content type \<open>application/json\<close>, and nothing is fetched.
\<close>

theorem strict_missing_id_400:
  assumes "id_param context = None \<or> id_param context = Some []"
  shows "koubei_onRequestGet net context =
    (Inr \<lparr>status = 400,
          headers = [(js ''Content-Type'', js ''application/json'')],
          body = js ''{\"error\":\"missing id\"}''\<rparr>, [])"
proof -
  from assms have "\<not> truthy (id_param context)"
    by auto
  then show ?thesis
    by (simp add: koubei_without_id json_headers_def)
qed

theorem strict_missing_id_400_witness:
  "(id_param (get_request [(js ''page'', js ''2''), (js ''id'', [])]) = None
      \<or> id_param (get_request [(js ''page'', js ''2''), (js ''id'', [])]) = Some [])
   \<and> koubei_onRequestGet (answering 200 (js ''{}''))
       (get_request [(js ''page'', js ''2''), (js ''id'', [])]) =
    (Inr \<lparr>status = 400,
          headers = [(js ''Content-Type'', js ''application/json'')],
          body = js ''{\"error\":\"missing id\"}''\<rparr>, [])"
proof -
  have h: "id_param (get_request [(js ''page'', js ''2''), (js ''id'', [])]) = None
      \<or> id_param (get_request [(js ''page'', js ''2''), (js ''id'', [])]) = Some []"
    by (simp add: js_def)
  show ?thesis
    using h strict_missing_id_400 [OF h, of "answering 200 (js ''{}'')"] by blast
qed

text \<open>
  C2. In both variants, when the upstream answers the fetch with a status outside
  200..299, whatever it is, the handler answers 404 with its error envelope:
  \<open>{"error":"file not found"}\<close> in the strict variant, \<open>{"error":"File not found"}\<close>
  in the lenient one.
\<close>

theorem upstream_failure_404:
  assumes "\<not> ok res"
  shows "(truthy (id_param context) \<and> net (fileUrl_of (id_param context)) = Inr res \<longrightarrow>
      fst (koubei_onRequestGet net context) =
        Inr \<lparr>status = 404,
             headers = [(js ''Content-Type'', js ''application/json'')],
             body = js ''{\"error\":\"file not found\"}''\<rparr>)
    \<and> (net (fileUrl_of (or_else (id_param context) (Some (js ''197'')))) = Inr res \<longrightarrow>
      fst (part_000_onRequestGet net context) =
        Inr \<lparr>status = 404,
             headers = [(js ''Content-Type'', js ''application/json'')],
             body = js ''{\"error\":\"File not found\"}''\<rparr>)"
  using assms by (simp add: koubei_with_id part_000_run json_headers_def)

theorem upstream_failure_404_witness:
  "fst (koubei_onRequestGet (answering 503 (js ''busy'')) (get_request [(js ''id'', js ''999999'')])) =
        Inr \<lparr>status = 404,
             headers = [(js ''Content-Type'', js ''application/json'')],
             body = js ''{\"error\":\"file not found\"}''\<rparr>
   \<and> fst (part_000_onRequestGet (answering 503 (js ''busy'')) (get_request [(js ''id'', js ''999999'')])) =
        Inr \<lparr>status = 404,
             headers = [(js ''Content-Type'', js ''application/json'')],
             body = js ''{\"error\":\"File not found\"}''\<rparr>"
proof -
  have h: "\<not> ok \<lparr>status = 503, headers = [], body = js ''busy''\<rparr>"
    by simp
  have t: "truthy (id_param (get_request [(js ''id'', js ''999999'')]))"
    by (simp add: js_def)
  show ?thesis
    using t upstream_failure_404 [OF h, of "get_request [(js ''id'', js ''999999'')]"
        "answering 503 (js ''busy'')"]
    by (simp add: answering_def)
qed

text \<open>
  C3, as stated: a 2xx answer with a valid JSON body is parsed, written again and returned
  with status 200, and the body returned is structurally equal to the upstream body. The
  last part fails for a number beyond the range of a double: it is read as an infinity
  and written as \<open>null\<close>.
\<close>

theorem overflowing_number_returned_as_null:
  "fst (koubei_onRequestGet (answering 200 (js ''{\"x\":1e309}''))
         (get_request [(js ''id'', js ''197'')]))
     = Inr \<lparr>status = 200,
            headers = [(js ''Content-Type'', js ''application/json'')],
            body = js ''{\"x\":null}''\<rparr>
   \<and> JSON_parse (js ''{\"x\":null}'') \<noteq> JSON_parse (js ''{\"x\":1e309}'')"
proof -
  have t: "truthy (id_param (get_request [(js ''id'', js ''197'')]))"
    by (simp add: js_def)
  have s: "JSON_stringify (JObject [(js ''x'', JNumber PosInfinity)]) 0 = js ''{\"x\":null}''"
    by code_simp
  have p: "JSON_parse (js ''{\"x\":null}'') = Some (JObject [(js ''x'', JNull)])"
    by code_simp
  show ?thesis
    using t by (simp add: koubei_with_id answering_def parse_overflow s p json_headers_def)
qed

text \<open>
  C3, amended. In both variants, when the upstream answers 2xx with a valid JSON body,
  the handler parses it, writes the value again (with an indentation of two spaces in the
  lenient variant) and returns that text with status 200 and the content type
  \<open>application/json\<close>. Unless the body holds a number beyond the range of a double
  (which is returned as \<open>null\<close>), the body returned parses to the same value as the
  upstream body, Numbers being compared as doubles.
\<close>

theorem success_reserialized:
  assumes "ok res" and "JSON_parse (body res) = Some v"
  shows "(truthy (id_param context) \<and> net (fileUrl_of (id_param context)) = Inr res \<longrightarrow>
      fst (koubei_onRequestGet net context) =
        Inr \<lparr>status = 200,
             headers = [(js ''Content-Type'', js ''application/json'')],
             body = JSON_stringify v 0\<rparr>
      \<and> (numbers_finite v \<longrightarrow> JSON_parse (JSON_stringify v 0) = JSON_parse (body res)))
    \<and> (net (fileUrl_of (or_else (id_param context) (Some (js ''197'')))) = Inr res \<longrightarrow>
      fst (part_000_onRequestGet net context) =
        Inr \<lparr>status = 200,
             headers = [(js ''Content-Type'', js ''application/json'')],
             body = JSON_stringify v 2\<rparr>
      \<and> (numbers_finite v \<longrightarrow> JSON_parse (JSON_stringify v 2) = JSON_parse (body res)))"
  using assms JSON_round_trip [OF assms(2)]
  by (simp add: koubei_with_id part_000_run json_headers_def)

theorem success_reserialized_witness:
  "fst (koubei_onRequestGet (answering 200 (js ''{\"make\":\"X\",\"score\":4.5}''))
         (get_request [(js ''id'', js ''197'')]))
     = Inr \<lparr>status = 200,
            headers = [(js ''Content-Type'', js ''application/json'')],
            body = js ''{\"make\":\"X\",\"score\":4.5}''\<rparr>
   \<and> JSON_parse (js ''{\"make\":\"X\",\"score\":4.5}'')
     = Some (JObject [(js ''make'', JString (js ''X'')),
         (js ''score'', JNumber (Finite 5066549580791808 (- 50)))])"
proof -
  let ?v = "JObject [(js ''make'', JString (js ''X'')),
        (js ''score'', JNumber (Finite 5066549580791808 (- 50)))]"
  let ?res = "\<lparr>status = 200, headers = [], body = js ''{\"make\":\"X\",\"score\":4.5}''\<rparr>"
  have o: "ok ?res"
    by simp
  have p: "JSON_parse (body ?res) = Some ?v"
    by (simp add: parse_example)
  have t: "truthy (id_param (get_request [(js ''id'', js ''197'')]))"
    by (simp add: js_def)
  have n: "answering 200 (js ''{\"make\":\"X\",\"score\":4.5}'')
      (fileUrl_of (id_param (get_request [(js ''id'', js ''197'')]))) = Inr ?res"
    by (simp add: answering_def)
  from success_reserialized [OF o p, of "get_request [(js ''id'', js ''197'')]"
      "answering 200 (js ''{\"make\":\"X\",\"score\":4.5}'')"] t n
  have "fst (koubei_onRequestGet (answering 200 (js ''{\"make\":\"X\",\"score\":4.5}''))
         (get_request [(js ''id'', js ''197'')]))
     = Inr \<lparr>status = 200,
            headers = [(js ''Content-Type'', js ''application/json'')],
            body = JSON_stringify ?v 0\<rparr>"
    by blast
  then show ?thesis
    by (simp only: stringify_example0 parse_example)
qed


text \<open>
  C4. In the lenient variant, a request whose query string has no \<open>id\<close> parameter makes
  the handler fetch the template with the default id 197:
  \<open>https://china-auto-dashboard.pages.dev/api/koubei_summary_197.json\<close>.
\<close>

theorem lenient_default_id_197:
  assumes "id_param context = None"
  shows "snd (part_000_onRequestGet net context) =
    [js ''https://china-auto-dashboard.pages.dev/api/koubei_summary_197.json'']"
proof -
  have "fileUrl_of (Some (js ''197'')) =
      js ''https://china-auto-dashboard.pages.dev/api/koubei_summary_197.json''"
    by (simp add: fileUrl_of_Some js_def)
  with assms show ?thesis
    by (simp add: part_000_run split: sum.splits option.splits)
qed

theorem lenient_default_id_197_witness:
  "id_param (get_request [(js ''lang'', js ''zh'')]) = None
   \<and> snd (part_000_onRequestGet (answering 200 (js ''{}'')) (get_request [(js ''lang'', js ''zh'')])) =
    [js ''https://china-auto-dashboard.pages.dev/api/koubei_summary_197.json'']"
proof -
  have h: "id_param (get_request [(js ''lang'', js ''zh'')]) = None"
    by (simp add: js_def)
  show ?thesis
    using h lenient_default_id_197 [OF h, of "answering 200 (js ''{}'')"] by blast
qed

text \<open>
  C5. In both variants, an id that reaches the URL-building step (a non-empty value of
  the \<open>id\<close> parameter) is put into the template as it is: the URL fetched is
  \<open>https://china-auto-dashboard.pages.dev/api/koubei_summary_\<close>, the id unchanged, and
  \<open>.json\<close>, whatever characters the id holds.
\<close>

theorem id_substituted_verbatim:
  assumes "id_param context = Some s" and "s \<noteq> []"
  shows "snd (koubei_onRequestGet net context) =
      [js ''https://china-auto-dashboard.pages.dev/api/koubei_summary_'' @ s @ js ''.json'']
    \<and> snd (part_000_onRequestGet net context) =
      [js ''https://china-auto-dashboard.pages.dev/api/koubei_summary_'' @ s @ js ''.json'']"
  using assms
  by (simp add: koubei_with_id part_000_run fileUrl_of_Some split: sum.splits option.splits)

theorem id_substituted_verbatim_witness:
  "id_param (get_request [(js ''id'', js ''../a b?x=1&y#z%'')]) = Some (js ''../a b?x=1&y#z%'')
   \<and> js ''../a b?x=1&y#z%'' \<noteq> []
   \<and> snd (koubei_onRequestGet (answering 404 []) (get_request [(js ''id'', js ''../a b?x=1&y#z%'')])) =
      [js ''https://china-auto-dashboard.pages.dev/api/koubei_summary_../a b?x=1&y#z%.json'']
   \<and> snd (part_000_onRequestGet (answering 404 []) (get_request [(js ''id'', js ''../a b?x=1&y#z%'')])) =
      [js ''https://china-auto-dashboard.pages.dev/api/koubei_summary_../a b?x=1&y#z%.json'']"
proof -
  have h1: "id_param (get_request [(js ''id'', js ''../a b?x=1&y#z%'')]) = Some (js ''../a b?x=1&y#z%'')"
    by simp
  have h2: "js ''../a b?x=1&y#z%'' \<noteq> []"
    by (simp add: js_def)
  show ?thesis
    using h1 h2 id_substituted_verbatim [OF h1 h2, of "answering 404 []"]
    by (simp add: js_def)
qed

text \<open>
  C6, as stated: for every valid JSON body of a 2xx answer, decoding the handler's output
  and encoding it again gives a value structurally equal to the upstream body. It fails
  for a number beyond the range of a double: the output holds \<open>null\<close> in its place.
\<close>

theorem round_trip_loses_overflowing_number:
  "fst (part_000_onRequestGet (answering 200 (js ''[-2e308]'')) (get_request []))
     = Inr \<lparr>status = 200,
            headers = [(js ''Content-Type'', js ''application/json'')],
            body = [0x5B, 0x0A, 0x20, 0x20] @ js ''null'' @ [0x0A, 0x5D]\<rparr>
   \<and> JSON_parse ([0x5B, 0x0A, 0x20, 0x20] @ js ''null'' @ [0x0A, 0x5D]) = Some (JArray [JNull])
   \<and> JSON_parse (JSON_stringify (JArray [JNull]) 0) \<noteq> JSON_parse (js ''[-2e308]'')"
proof -
  have s: "JSON_stringify (JArray [JNumber NegInfinity]) 2
      = [0x5B, 0x0A, 0x20, 0x20] @ js ''null'' @ [0x0A, 0x5D]"
    by code_simp
  have p: "JSON_parse ([0x5B, 0x0A, 0x20, 0x20] @ js ''null'' @ [0x0A, 0x5D]) = Some (JArray [JNull])"
    by code_simp
  have q: "JSON_parse (JSON_stringify (JArray [JNull]) 0) = Some (JArray [JNull])"
    by code_simp
  show ?thesis
    by (simp only: part_000_run p q parse_underflow)
      (simp add: answering_def parse_underflow s json_headers_def)
qed

text \<open>
  C6, amended. In both variants, for every valid JSON body of a 2xx answer that holds no
  number beyond the range of a double, the handler's output decodes to a value which,
  encoded again (with any indentation) and decoded, is the value of the upstream body.
\<close>

theorem decode_reencode_round_trip:
  assumes "ok res" and "JSON_parse (body res) = Some v" and "numbers_finite v"
  shows "(truthy (id_param context) \<and> net (fileUrl_of (id_param context)) = Inr res \<longrightarrow>
      (\<exists>out w. fst (koubei_onRequestGet net context)
            = Inr \<lparr>status = 200, headers = json_headers, body = out\<rparr>
          \<and> JSON_parse out = Some w
          \<and> JSON_parse (JSON_stringify w space) = JSON_parse (body res)))
    \<and> (net (fileUrl_of (or_else (id_param context) (Some (js ''197'')))) = Inr res \<longrightarrow>
      (\<exists>out w. fst (part_000_onRequestGet net context)
            = Inr \<lparr>status = 200, headers = json_headers, body = out\<rparr>
          \<and> JSON_parse out = Some w
          \<and> JSON_parse (JSON_stringify w space) = JSON_parse (body res)))"
proof -
  have r: "JSON_parse (JSON_stringify v sp) = Some v" for sp
    using JSON_round_trip [OF assms(2,3)] assms(2) by simp
  show ?thesis
    using assms(1,2) by (simp add: koubei_with_id part_000_run r)
qed

theorem decode_reencode_round_trip_witness:
  "fst (part_000_onRequestGet (answering 200 (js ''{\"id\":197,\"summary\":\"ok\"}''))
        (get_request []))
     = Inr \<lparr>status = 200, headers = json_headers,
            body = [0x7B, 0x0A] @ js ''  \"id\": 197,'' @ [0x0A] @ js ''  \"summary\": \"ok\"''
              @ [0x0A, 0x7D]\<rparr>
   \<and> JSON_parse ([0x7B, 0x0A] @ js ''  \"id\": 197,'' @ [0x0A] @ js ''  \"summary\": \"ok\"''
          @ [0x0A, 0x7D])
     = Some (JObject [(js ''id'', JNumber (Finite 6931321301499904 (- 45))),
         (js ''summary'', JString (js ''ok''))])
   \<and> JSON_parse (JSON_stringify (JObject [(js ''id'', JNumber (Finite 6931321301499904 (- 45))),
         (js ''summary'', JString (js ''ok''))]) 0)
     = JSON_parse (js ''{\"id\":197,\"summary\":\"ok\"}'')"
proof -
  let ?v = "JObject [(js ''id'', JNumber (Finite 6931321301499904 (- 45))),
        (js ''summary'', JString (js ''ok''))]"
  let ?out = "[0x7B, 0x0A] @ js ''  \"id\": 197,'' @ [0x0A] @ js ''  \"summary\": \"ok\"''
      @ [0x0A, 0x7D]"
  let ?res = "\<lparr>status = 200, headers = [], body = js ''{\"id\":197,\"summary\":\"ok\"}''\<rparr>"
  have o: "ok ?res"
    by simp
  have pv: "JSON_parse (js ''{\"id\":197,\"summary\":\"ok\"}'') = Some ?v"
    by code_simp
  then have p: "JSON_parse (body ?res) = Some ?v"
    by simp
  have f: "numbers_finite ?v"
    by simp
  have s: "JSON_stringify ?v 2 = ?out"
    by code_simp
  have po: "JSON_parse ?out = Some ?v"
    by code_simp
  have n: "answering 200 (js ''{\"id\":197,\"summary\":\"ok\"}'')
      (fileUrl_of (or_else (id_param (get_request [])) (Some (js ''197'')))) = Inr ?res"
    by (simp add: answering_def)
  have run: "fst (part_000_onRequestGet (answering 200 (js ''{\"id\":197,\"summary\":\"ok\"}''))
        (get_request [])) = Inr \<lparr>status = 200, headers = json_headers, body = ?out\<rparr>"
    by (simp only: part_000_run n) (simp add: pv s)
  from decode_reencode_round_trip [OF o p f, of "get_request []"
      "answering 200 (js ''{\"id\":197,\"summary\":\"ok\"}'')" 0] n
  obtain out w where "fst (part_000_onRequestGet (answering 200 (js ''{\"id\":197,\"summary\":\"ok\"}''))
        (get_request [])) = Inr \<lparr>status = 200, headers = json_headers, body = out\<rparr>"
    and w: "JSON_parse out = Some w"
    and rt: "JSON_parse (JSON_stringify w 0) = JSON_parse (body ?res)"
    by blast
  with run have "out = ?out"
    by simp
  with w po have "w = ?v"
    by simp
  with rt have "JSON_parse (JSON_stringify ?v 0) = JSON_parse (js ''{\"id\":197,\"summary\":\"ok\"}'')"
    by simp
  with run po show ?thesis
    by (intro conjI)
qed

text \<open>
  C7, as stated: every error is caught and the caller always receives a JSON response.
  It fails: a 2xx answer whose body is not JSON makes \<open>res.json()\<close> throw, and nothing
  catches it.
\<close>

theorem malformed_upstream_body_throws:
  "fst (koubei_onRequestGet (answering 200 (js ''<html>'')) (get_request [(js ''id'', js ''197'')]))
     = Inl SyntaxError
   \<and> fst (part_000_onRequestGet (answering 200 (js ''<html>'')) (get_request []))
     = Inl SyntaxError"
proof -
  have p: "JSON_parse (js ''<html>'') = None"
    by code_simp
  have t: "truthy (id_param (get_request [(js ''id'', js ''197'')]))"
    by (simp add: js_def)
  show ?thesis
    using t by (simp add: koubei_with_id part_000_run answering_def p)
qed

text \<open>
  C7, amended. The handlers catch nothing. A missing id (strict variant) and an upstream
  status outside 200..299 are answered with a JSON envelope; the handler throws, and the
  caller gets no response from it, exactly when the fetch itself fails (the error of the
  fetch) or the upstream answers 2xx with a body that is not JSON (a \<open>SyntaxError\<close>).
\<close>

theorem handler_throws_iff:
  "(fst (koubei_onRequestGet net context) = Inl e \<longleftrightarrow>
      truthy (id_param context) \<and>
      (net (fileUrl_of (id_param context)) = Inl e
       \<or> (\<exists>res. net (fileUrl_of (id_param context)) = Inr res \<and> ok res
             \<and> JSON_parse (body res) = None \<and> e = SyntaxError)))
   \<and> (fst (part_000_onRequestGet net context) = Inl e \<longleftrightarrow>
      net (fileUrl_of (or_else (id_param context) (Some (js ''197'')))) = Inl e
       \<or> (\<exists>res. net (fileUrl_of (or_else (id_param context) (Some (js ''197'')))) = Inr res
             \<and> ok res \<and> JSON_parse (body res) = None \<and> e = SyntaxError))"
proof (intro conjI)
  show "fst (koubei_onRequestGet net context) = Inl e \<longleftrightarrow>
      truthy (id_param context) \<and>
      (net (fileUrl_of (id_param context)) = Inl e
       \<or> (\<exists>res. net (fileUrl_of (id_param context)) = Inr res \<and> ok res
             \<and> JSON_parse (body res) = None \<and> e = SyntaxError))"
  proof (cases "truthy (id_param context)")
    case True
    then show ?thesis
      by (auto simp add: koubei_with_id split: sum.splits option.splits)
  next
    case False
    then show ?thesis
      by (simp add: koubei_without_id)
  qed
next
  show "fst (part_000_onRequestGet net context) = Inl e \<longleftrightarrow>
      net (fileUrl_of (or_else (id_param context) (Some (js ''197'')))) = Inl e
       \<or> (\<exists>res. net (fileUrl_of (or_else (id_param context) (Some (js ''197'')))) = Inr res
             \<and> ok res \<and> JSON_parse (body res) = None \<and> e = SyntaxError)"
    by (auto simp add: part_000_run split: sum.splits option.splits)
qed

theorem handler_throws_iff_witness:
  "fst (koubei_onRequestGet (\<lambda>u. Inl TypeError) (get_request [(js ''id'', js ''7'')])) = Inl TypeError
   \<and> fst (koubei_onRequestGet (\<lambda>u. Inl TypeError) (get_request [])) \<noteq> Inl TypeError
   \<and> fst (part_000_onRequestGet (\<lambda>u. Inl TypeError) (get_request [])) = Inl TypeError"
proof -
  have t: "truthy (id_param (get_request [(js ''id'', js ''7'')]))"
    by (simp add: js_def)
  have f: "\<not> truthy (id_param (get_request []))"
    by simp
  show ?thesis
    using t f
      handler_throws_iff [of "\<lambda>u. Inl TypeError" "get_request [(js ''id'', js ''7'')]" TypeError]
      handler_throws_iff [of "\<lambda>u. Inl TypeError" "get_request []" TypeError]
    by simp
qed

text \<open>
  C8, as stated: every request makes exactly one outbound call, on every path of both
  variants. It fails in the strict variant, which answers a request without id before
  any fetch.
\<close>

theorem strict_missing_id_fetches_nothing:
  "length (snd (koubei_onRequestGet (answering 200 (js ''{}'')) (get_request []))) \<noteq> 1"
proof -
  have "\<not> truthy (id_param (get_request []))"
    by simp
  then show ?thesis
    by (simp add: koubei_without_id)
qed

text \<open>
  C8, amended. The lenient variant makes exactly one outbound call for every request. The
  strict variant makes exactly one when the request has a non-empty id and none
  otherwise. The fetch is the only effect a handler has.
\<close>

theorem outbound_calls_counted:
  "length (snd (part_000_onRequestGet net context)) = 1
   \<and> length (snd (koubei_onRequestGet net context)) = (if truthy (id_param context) then 1 else 0)"
  by (simp add: part_000_run koubei_with_id koubei_without_id split: sum.splits option.splits)

theorem outbound_calls_counted_witness:
  "length (snd (part_000_onRequestGet (answering 500 []) (get_request []))) = 1
   \<and> length (snd (koubei_onRequestGet (answering 500 []) (get_request []))) = 0
   \<and> length (snd (koubei_onRequestGet (answering 500 []) (get_request [(js ''id'', js ''7'')]))) = 1"
proof -
  have t: "truthy (id_param (get_request [(js ''id'', js ''7'')]))"
    by (simp add: js_def)
  have f: "\<not> truthy (id_param (get_request []))"
    by simp
  show ?thesis
    using t f
      outbound_calls_counted [of "answering 500 []" "get_request []"]
      outbound_calls_counted [of "answering 500 []" "get_request [(js ''id'', js ''7'')]"]
    by simp
qed

text \<open>
  C9. In the lenient variant an \<open>id\<close> parameter that is present and empty is treated as
  an absent one: both requests run alike and fetch the file of id 197, and no request
  makes the handler fetch the URL of the empty id.
\<close>

theorem lenient_empty_id_is_absent:
  assumes "id_param context = Some []" and "id_param context' = None"
  shows "part_000_onRequestGet net context = part_000_onRequestGet net context'
    \<and> snd (part_000_onRequestGet net context) =
        [js ''https://china-auto-dashboard.pages.dev/api/koubei_summary_197.json'']
    \<and> (\<forall>c :: (unit, unit) event_context_scheme.
          js ''https://china-auto-dashboard.pages.dev/api/koubei_summary_.json''
            \<notin> set (snd (part_000_onRequestGet net c)))"
proof (intro conjI allI)
  have "or_else (id_param context) (Some (js ''197'')) = Some (js ''197'')"
    and "or_else (id_param context') (Some (js ''197'')) = Some (js ''197'')"
    using assms by simp_all
  then show "part_000_onRequestGet net context = part_000_onRequestGet net context'"
    by (simp only: part_000_run)
next
  have "fileUrl_of (Some (js ''197'')) =
      js ''https://china-auto-dashboard.pages.dev/api/koubei_summary_197.json''"
    by (simp add: fileUrl_of_Some js_def)
  with assms show "snd (part_000_onRequestGet net context) =
      [js ''https://china-auto-dashboard.pages.dev/api/koubei_summary_197.json'']"
    by (simp add: part_000_run split: sum.splits option.splits)
next
  fix c :: "(unit, unit) event_context_scheme"
  obtain s where s: "or_else (id_param c) (Some (js ''197'')) = Some s" "s \<noteq> []"
    using or_else_197 by blast
  have "js ''https://china-auto-dashboard.pages.dev/api/koubei_summary_.json'' =
      js ''https://china-auto-dashboard.pages.dev/api/koubei_summary_'' @ [] @ js ''.json''"
    by (simp add: js_def)
  also have "\<dots> \<noteq> fileUrl_of (Some s)"
    using s(2) by (simp add: fileUrl_of_Some)
  finally show "js ''https://china-auto-dashboard.pages.dev/api/koubei_summary_.json''
      \<notin> set (snd (part_000_onRequestGet net c))"
    using s(1) by (simp add: part_000_run split: sum.splits option.splits)
qed

theorem lenient_empty_id_is_absent_witness:
  "part_000_onRequestGet (answering 200 (js ''[]'')) (get_request [(js ''id'', [])])
     = part_000_onRequestGet (answering 200 (js ''[]'')) (get_request [])
   \<and> snd (part_000_onRequestGet (answering 200 (js ''[]'')) (get_request [(js ''id'', [])])) =
        [js ''https://china-auto-dashboard.pages.dev/api/koubei_summary_197.json'']"
proof -
  have h1: "id_param (get_request [(js ''id'', [])]) = Some []"
    by simp
  have h2: "id_param (get_request []) = None"
    by simp
  show ?thesis
    using lenient_empty_id_is_absent [OF h1 h2, of "answering 200 (js ''[]'')"] by blast
qed



end
